theory Spec2Isabelle
  imports Complex_Main "HOL-Library.Sublist" "HOL-Library.Log_Nat"
begin

section \<open>Fonts and the metrics the drawing library supplies\<close>

text \<open>
  The program is one Python script, \<^verbatim>\<open>app.py\<close>. Its algorithmic part is
  \<^verbatim>\<open>load_font\<close>, \<^verbatim>\<open>wrap_text_and_find_font\<close> and the overlay loop of the
  main pipeline. Everything the script obtains from outside is a parameter of the model:
  \<^item> whether the font file \<^verbatim>\<open>DejaVuSans.ttf\<close> can be loaded (\<open>font_file\<close>);
  \<^item> the width \<^verbatim>\<open>draw.textlength(line, font=font)\<close> of a string (\<open>textlength\<close>);
  \<^item> the glyph box \<^verbatim>\<open>font.getbbox("A")\<close> and the attribute \<^verbatim>\<open>font.size\<close>;
  \<^item> what a drawing call does to the pixels of the canvas.

  A Python float is the rational number it denotes. In the size search the only float
  computation is \<^verbatim>\<open>int(box_height / (size * 1.2))\<close>; it is computed here with
  \<open>6/5\<close> for \<^verbatim>\<open>1.2\<close>, and for the fifteen sizes the script tries and every
  integer box height between \<open>-2000\<close> and \<open>200000\<close> the double precision result
  is this integer. In the overlay loop every float operation is rounded to double
  precision (\<open>round_double\<close>). Strings are lists of 8-bit characters.
\<close>

datatype font_file = FontPresent | FontMissing | FontCorrupt

datatype font = TrueType nat | DefaultFont

datatype message =
    FontNotFound
  | FontLoadError
  | InvalidBBox
  | ZeroArea
  | CouldNotFit string
  | TranslationNone string

type_synonym textlength = "font \<Rightarrow> string \<Rightarrow> rat"

text \<open>
  \<^verbatim>\<open>load_font(size)\<close>: the font and the messages shown. A missing file is reported with
  \<^verbatim>\<open>st.error\<close>, a file that does not load (\<^verbatim>\<open>OSError\<close>) with \<^verbatim>\<open>st.warning\<close>;
  both give the default font.
\<close>

definition load_font :: "font_file \<Rightarrow> nat \<Rightarrow> font \<times> message list" where
  "load_font ff sz =
     (case ff of
        FontMissing \<Rightarrow> (DefaultFont, [FontNotFound])
      | FontPresent \<Rightarrow> (TrueType sz, [])
      | FontCorrupt \<Rightarrow> (DefaultFont, [FontLoadError]))"

section \<open>Splitting and stripping text\<close>

text \<open>
  \<^verbatim>\<open>str.isspace\<close> on the code points below 256: tab to carriage return, the four
  separators 28 to 31, the space, NEL (133) and the no-break space (160).
\<close>

definition isspace :: "char \<Rightarrow> bool" where
  "isspace c = ((of_char c :: nat) \<in> {9, 10, 11, 12, 13, 28, 29, 30, 31, 32, 133, 160})"

text \<open>
  \<^verbatim>\<open>text.split()\<close> without arguments: runs of whitespace separate the words and no
  empty word is produced. \<open>split_from w cs\<close> scans \<open>cs\<close> with the word \<open>w\<close> read so far.
\<close>

fun split_from :: "string \<Rightarrow> string \<Rightarrow> string list" where
  "split_from w [] = (if w = [] then [] else [w])"
| "split_from w (c # cs) =
     (if isspace c then (if w = [] then split_from [] cs else w # split_from [] cs)
      else split_from (w @ [c]) cs)"

definition split :: "string \<Rightarrow> string list" where
  "split text = split_from [] text"

text \<open>\<^verbatim>\<open>text.strip()\<close>: whitespace removed at both ends.\<close>

definition strip :: "string \<Rightarrow> string" where
  "strip text = rev (dropWhile isspace (rev (dropWhile isspace text)))"

section \<open>Wrapping at one size\<close>

text \<open>\<^verbatim>\<open>int(x)\<close> on a float truncates towards zero.\<close>

definition py_int :: "rat \<Rightarrow> int" where
  "py_int x = (if 0 \<le> x then \<lfloor>x\<rfloor> else \<lceil>x\<rceil>)"

text \<open>
  \<^verbatim>\<open>line_height_approx = size * 1.2\<close> and
  \<^verbatim>\<open>max_lines = int(box_height / line_height_approx)\<close>. The script divides only
  for the sizes 12 to 40, so the divisor is positive.
\<close>

definition line_height_approx :: "nat \<Rightarrow> rat" where
  "line_height_approx sz = of_nat sz * (6 / 5)"

definition max_lines_at :: "int \<Rightarrow> nat \<Rightarrow> int" where
  "max_lines_at box_height sz = py_int (of_int box_height / line_height_approx sz)"

text \<open>
  \<^verbatim>\<open>test_line = current_line + (" " if current_line else "") + word\<close>
\<close>

definition test_line :: "string \<Rightarrow> string \<Rightarrow> string" where
  "test_line current_line word =
     current_line @ (if current_line \<noteq> [] then '' '' else []) @ word"

text \<open>
  The word loop of the size search (source lines 89 to 108). The state is
  \<open>(wrapped_lines, current_line)\<close>; both \<^verbatim>\<open>break\<close> statements leave the loop with
  \<open>current_line = ''''\<close>.
\<close>

fun wrap_loop :: "(string \<Rightarrow> rat) \<Rightarrow> int \<Rightarrow> int \<Rightarrow> string list \<Rightarrow> string \<Rightarrow> string list
    \<Rightarrow> string list \<times> string" where
  "wrap_loop tlen box_width max_lines wrapped_lines current_line [] =
     (wrapped_lines, current_line)"
| "wrap_loop tlen box_width max_lines wrapped_lines current_line (word # words) =
     (if tlen (test_line current_line word) \<le> of_int box_width
      then wrap_loop tlen box_width max_lines wrapped_lines (test_line current_line word) words
      else if int (length (wrapped_lines @ [current_line])) \<ge> max_lines
      then (wrapped_lines @ [current_line], [])
      else if tlen word > of_int box_width
      then (wrapped_lines @ [current_line], [])
      else wrap_loop tlen box_width max_lines (wrapped_lines @ [current_line]) word words)"

text \<open>
  Which statement ended the word loop: the \<^verbatim>\<open>break\<close> the source comments as
  "failure due to height" (line 100), the one it comments as "failure due to width"
  (line 108), or the end of the words.
\<close>

datatype loop_exit = Finished | HeightBreak | WidthBreak

fun wrap_exit :: "(string \<Rightarrow> rat) \<Rightarrow> int \<Rightarrow> int \<Rightarrow> string list \<Rightarrow> string \<Rightarrow> string list
    \<Rightarrow> loop_exit" where
  "wrap_exit tlen box_width max_lines wrapped_lines current_line [] = Finished"
| "wrap_exit tlen box_width max_lines wrapped_lines current_line (word # words) =
     (if tlen (test_line current_line word) \<le> of_int box_width
      then wrap_exit tlen box_width max_lines wrapped_lines (test_line current_line word) words
      else if int (length (wrapped_lines @ [current_line])) \<ge> max_lines
      then HeightBreak
      else if tlen word > of_int box_width
      then WidthBreak
      else wrap_exit tlen box_width max_lines (wrapped_lines @ [current_line]) word words)"

text \<open>
  One pass of the \<^verbatim>\<open>for size in range(40, 11, -2)\<close> body after the font is loaded
  (source lines 74 to 119): \<open>Some lines\<close> when the body returns, \<open>None\<close> when control
  goes on to the next size.
\<close>

definition wrap_at :: "textlength \<Rightarrow> font \<Rightarrow> string \<Rightarrow> int \<Rightarrow> int \<Rightarrow> nat \<Rightarrow> string list option" where
  "wrap_at tlen fnt text box_width box_height sz =
     (let words = split text in
      if words = [] then Some []
      else
        let max_lines = max_lines_at box_height sz in
        if max_lines = 0 then None
        else
          let (wrapped_lines, current_line) = wrap_loop (tlen fnt) box_width max_lines [] [] words in
          if current_line \<noteq> [] then
            (if int (length (wrapped_lines @ [current_line])) > max_lines then None
             else Some (wrapped_lines @ [current_line]))
          else None)"

section \<open>The fallback pass at size 12\<close>

text \<open>
  The word loop of the fallback (source lines 133 to 146): a line is closed only while
  fewer than \<open>max_lines\<close> lines are closed, a word wider than the box stays, and the loop
  is left with \<open>current_line = ''''\<close> once the height is used up.
\<close>

fun fallback_loop :: "(string \<Rightarrow> rat) \<Rightarrow> int \<Rightarrow> int \<Rightarrow> string list \<Rightarrow> string \<Rightarrow> string list
    \<Rightarrow> string list \<times> string" where
  "fallback_loop tlen box_width max_lines wrapped_lines current_line [] =
     (wrapped_lines, current_line)"
| "fallback_loop tlen box_width max_lines wrapped_lines current_line (word # words) =
     (if tlen (test_line current_line word) \<le> of_int box_width
      then fallback_loop tlen box_width max_lines wrapped_lines (test_line current_line word) words
      else if int (length wrapped_lines) < max_lines
      then fallback_loop tlen box_width max_lines (wrapped_lines @ [current_line]) word words
      else (wrapped_lines, []))"

definition fallback_wrap :: "textlength \<Rightarrow> font \<Rightarrow> string \<Rightarrow> int \<Rightarrow> int \<Rightarrow> string list" where
  "fallback_wrap tlen fnt text box_width box_height =
     (let max_lines = (if line_height_approx 12 > 0 then max_lines_at box_height 12 else 0);
          words = split text
      in if words = [] then []
         else if max_lines = 0 then []
         else
           let (wrapped_lines, current_line) = fallback_loop (tlen fnt) box_width max_lines [] [] words in
           if current_line \<noteq> [] \<and> int (length wrapped_lines) < max_lines
           then wrapped_lines @ [current_line]
           else wrapped_lines)"

section \<open>The font size search\<close>

text \<open>\<^verbatim>\<open>range(40, 11, -2)\<close>\<close>

definition candidate_sizes :: "nat list" where
  "candidate_sizes = map (\<lambda>k. 40 - 2 * k) [0..<15]"

text \<open>
  The \<^verbatim>\<open>for\<close> loop over the sizes, with the messages of every \<^verbatim>\<open>load_font\<close> call
  collected in order; when the sizes are used up, the fallback pass with its own
  \<^verbatim>\<open>load_font(12)\<close>.
\<close>

fun size_search :: "font_file \<Rightarrow> textlength \<Rightarrow> string \<Rightarrow> int \<Rightarrow> int \<Rightarrow> nat list \<Rightarrow> message list
    \<Rightarrow> (font \<times> string list) \<times> message list" where
  "size_search ff tlen text box_width box_height [] shown =
     (let (fnt, ms) = load_font ff 12
      in ((fnt, fallback_wrap tlen fnt text box_width box_height), shown @ ms))"
| "size_search ff tlen text box_width box_height (sz # sizes) shown =
     (let (fnt, ms) = load_font ff sz
      in case wrap_at tlen fnt text box_width box_height sz of
           Some lines \<Rightarrow> ((fnt, lines), shown @ ms)
         | None \<Rightarrow> size_search ff tlen text box_width box_height sizes (shown @ ms))"

definition wrap_text_and_find_font :: "font_file \<Rightarrow> textlength \<Rightarrow> string \<Rightarrow> int \<Rightarrow> int
    \<Rightarrow> (font \<times> string list) \<times> message list" where
  "wrap_text_and_find_font ff tlen text box_width box_height =
     size_search ff tlen text box_width box_height candidate_sizes []"

section \<open>The translation stage\<close>

text \<open>
  What \<^verbatim>\<open>translator.translate(cleaned_text)\<close> does is outside the script: it returns a
  string, returns \<^verbatim>\<open>None\<close>, or raises.
\<close>

datatype translation = Translated string | ReturnedNone | Raised

text \<open>
  The body of the translation loop for one OCR result (source lines 225 to 239): the text
  stored in the block and the warning shown. In the \<open>Raised\<close> case the script also
  counts the error and reports the count once after the loop.
\<close>

definition translate_block :: "(string \<Rightarrow> translation) \<Rightarrow> string \<Rightarrow> string \<times> message list" where
  "translate_block translator text =
     (let cleaned_text = strip text in
      if cleaned_text = [] then ('' '', [])
      else
        case translator cleaned_text of
          Translated translated_text \<Rightarrow>
            (if translated_text \<noteq> [] then translated_text else '' '', [])
        | ReturnedNone \<Rightarrow>
            (if cleaned_text \<noteq> [] then cleaned_text else '' '', [TranslationNone (take 30 text)])
        | Raised \<Rightarrow> (text, []))"

section \<open>Bounding boxes\<close>

text \<open>
  A corner coordinate as the OCR engine delivers it: a number, or a value on which
  \<^verbatim>\<open>int()\<close> raises \<^verbatim>\<open>ValueError\<close> or \<^verbatim>\<open>TypeError\<close>.
\<close>

datatype coord = Number rat | NotANumber

fun to_int :: "coord \<Rightarrow> int option" where
  "to_int (Number r) = Some (py_int r)"
| "to_int NotANumber = None"

type_synonym bbox = "(coord \<times> coord) list"

text \<open>
  \<^verbatim>\<open>[(int(p[0]), int(p[1])) for p in bbox]\<close> inside its \<^verbatim>\<open>try\<close>: \<open>None\<close> when a
  conversion raises.
\<close>

fun int_points :: "bbox \<Rightarrow> (int \<times> int) list option" where
  "int_points [] = Some []"
| "int_points ((a, b) # ps) =
     (case to_int a of
        None \<Rightarrow> None
      | Some x \<Rightarrow>
          (case to_int b of
             None \<Rightarrow> None
           | Some y \<Rightarrow>
               (case int_points ps of None \<Rightarrow> None | Some qs \<Rightarrow> Some ((x, y) # qs))))"

datatype error = ValueError | AttributeError

text \<open>\<^verbatim>\<open>min\<close> and \<^verbatim>\<open>max\<close> of a list raise \<^verbatim>\<open>ValueError\<close> on the empty list.\<close>

fun py_min :: "int list \<Rightarrow> error + int" where
  "py_min [] = Inl ValueError"
| "py_min (x # xs) = Inr (fold min xs x)"

fun py_max :: "int list \<Rightarrow> error + int" where
  "py_max [] = Inl ValueError"
| "py_max (x # xs) = Inr (fold max xs x)"

datatype box_result = Skipped message | Box int int int int

text \<open>
  Source lines 257 to 281: the corner points are converted, reduced to
  \<open>(x1, y1, x2, y2)\<close> by minimum and maximum, clamped to the image, and a box without
  area is skipped with a warning.
\<close>

definition block_box :: "int \<Rightarrow> int \<Rightarrow> bbox \<Rightarrow> error + box_result" where
  "block_box img_width img_height bb =
     (case int_points bb of
        None \<Rightarrow> Inr (Skipped InvalidBBox)
      | Some pts \<Rightarrow>
          (case (py_min (map fst pts), py_min (map snd pts),
                 py_max (map fst pts), py_max (map snd pts)) of
             (Inr mx1, Inr my1, Inr mx2, Inr my2) \<Rightarrow>
               (let x1 = max 0 mx1; y1 = max 0 my1;
                    x2 = min img_width mx2; y2 = min img_height my2;
                    box_width = x2 - x1; box_height = y2 - y1
                in if box_width \<le> 0 \<or> box_height \<le> 0 then Inr (Skipped ZeroArea)
                   else Inr (Box x1 y1 x2 y2))
           | _ \<Rightarrow> Inl ValueError))"

section \<open>Double precision arithmetic\<close>

text \<open>
  Rounding to the nearest integer, ties to the even one.
\<close>

definition rne :: "rat \<Rightarrow> int" where
  "rne x =
     (let f = \<lfloor>x\<rfloor>; d = x - of_int f
      in if d < 1 / 2 then f else if 1 / 2 < d then f + 1 else if even f then f else f + 1)"

text \<open>The binary exponent of a positive number: \<open>2 ^ e \<le> x < 2 ^ (e + 1)\<close>.\<close>

definition exponent :: "rat \<Rightarrow> int" where
  "exponent x = (if 1 \<le> x then bitlen \<lfloor>x\<rfloor> - 1 else - bitlen (\<lceil>1 / x\<rceil> - 1))"

text \<open>
  The nearest number with a significand of 53 bits, ties to even, for a positive number
  and for any number: the value a correctly rounded IEEE 754 double operation returns for
  the exact result \<open>x\<close>. The exponent range of a double is not modelled (no overflow and
  no subnormal numbers).
\<close>

definition round_pos :: "rat \<Rightarrow> rat" where
  "round_pos a = (let u = 2 powi (exponent a - 52) in of_int (rne (a / u)) * u)"

definition round_double :: "rat \<Rightarrow> rat" where
  "round_double x = (if x = 0 then 0 else sgn x * round_pos \<bar>x\<bar>)"

text \<open>Python's \<^verbatim>\<open>+\<close>, \<^verbatim>\<open>-\<close>, \<^verbatim>\<open>*\<close> and \<^verbatim>\<open>/\<close> with a float operand, and the literal \<^verbatim>\<open>1.2\<close>.\<close>

definition fadd :: "rat \<Rightarrow> rat \<Rightarrow> rat" where
  "fadd a b = round_double (a + b)"

definition fsub :: "rat \<Rightarrow> rat \<Rightarrow> rat" where
  "fsub a b = round_double (a - b)"

definition fmul :: "rat \<Rightarrow> rat \<Rightarrow> rat" where
  "fmul a b = round_double (a * b)"

definition fdiv :: "rat \<Rightarrow> rat \<Rightarrow> rat" where
  "fdiv a b = round_double (a / b)"

definition one_point_two :: rat where
  "one_point_two = round_double (6 / 5)"

section \<open>The overlay loop\<close>

text \<open>
  The drawing library: string widths, the vertical extent \<open>(top, bottom)\<close> of
  \<^verbatim>\<open>font.getbbox("A")\<close> (\<open>None\<close> when the call raises \<^verbatim>\<open>AttributeError\<close>), the
  \<^verbatim>\<open>size\<close> attribute of the default font (\<open>None\<close> when it has none), the pixels
  \<^verbatim>\<open>draw.rectangle\<close> sets with their colours, and for \<^verbatim>\<open>draw.text\<close> the colour
  each pixel has after the call, given the colour it had: the library blends the ink of
  a glyph with what is on the canvas.
\<close>

datatype colour = White | LightGray | Black | Colour nat

record pil =
  textlength :: textlength
  getbbox_A :: "font \<Rightarrow> (rat \<times> rat) option"
  default_size :: "nat option"
  rectangle_pixels :: "int \<Rightarrow> int \<Rightarrow> int \<Rightarrow> int \<Rightarrow> (int \<times> int) \<rightharpoonup> colour"
  text_pixels :: "rat \<Rightarrow> rat \<Rightarrow> string \<Rightarrow> font \<Rightarrow> int \<times> int \<Rightarrow> colour \<Rightarrow> colour"

fun font_size :: "pil \<Rightarrow> font \<Rightarrow> nat option" where
  "font_size lib (TrueType sz) = Some sz"
| "font_size lib DefaultFont = default_size lib"

text \<open>\<^verbatim>\<open>final_font.size * 1.2\<close>, which raises when the font has no \<^verbatim>\<open>size\<close>.\<close>

definition size_line_height :: "pil \<Rightarrow> font \<Rightarrow> error + rat" where
  "size_line_height lib final_font =
     (case font_size lib final_font of
        None \<Rightarrow> Inl AttributeError
      | Some sz \<Rightarrow> Inr (fmul (of_nat sz) one_point_two))"

text \<open>Source lines 294 to 302.\<close>

definition line_height :: "pil \<Rightarrow> font \<Rightarrow> error + rat" where
  "line_height lib final_font =
     (case getbbox_A lib final_font of
        Some (bbox_top, bbox_bottom) \<Rightarrow>
          (let actual_char_height = fsub bbox_bottom bbox_top;
               lh = fmul actual_char_height one_point_two
           in if lh \<le> 0 then size_line_height lib final_font else Inr lh)
      | None \<Rightarrow> size_line_height lib final_font)"

text \<open>The calls made on the canvas, in order.\<close>

datatype canvas_op = Rectangle int int int int | DrawText rat rat string font

text \<open>
  The loop over \<^verbatim>\<open>lines_to_draw\<close> (source lines 309 to 320), from the current
  \<open>current_y\<close>: a line that would end more than 5 pixels below \<open>y2\<close> is not drawn, and the
  loop is left once \<open>current_y\<close> is below \<open>y2\<close>. \<open>y2 + 5\<close> is a sum of integers.
\<close>

fun draw_lines :: "(string \<Rightarrow> rat) \<Rightarrow> font \<Rightarrow> int \<Rightarrow> int \<Rightarrow> int \<Rightarrow> rat \<Rightarrow> rat \<Rightarrow> string list
    \<Rightarrow> canvas_op list" where
  "draw_lines tlen fnt x1 y2 box_width lh current_y [] = []"
| "draw_lines tlen fnt x1 y2 box_width lh current_y (line # lines) =
     (let line_width = tlen line;
          start_x = fadd (of_int x1) (fdiv (fsub (of_int box_width) line_width) 2);
          draw_x = max (of_int x1) start_x;
          drawn = (if fadd current_y lh \<le> of_int (y2 + 5)
                   then [DrawText draw_x current_y line fnt] else [])
      in if fadd current_y lh > of_int y2
         then drawn
         else drawn @ draw_lines tlen fnt x1 y2 box_width lh (fadd current_y lh) lines)"

text \<open>
  The body of the overlay loop for one block (source lines 253 to 322), on the canvas
  calls and messages so far. \<open>Inl\<close> is an exception that leaves the loop.
\<close>

definition overlay_block :: "font_file \<Rightarrow> pil \<Rightarrow> int \<Rightarrow> int \<Rightarrow> bbox \<times> string
    \<Rightarrow> canvas_op list \<times> message list \<Rightarrow> error + canvas_op list \<times> message list" where
  "overlay_block ff lib img_width img_height block st =
     (case block_box img_width img_height (fst block) of
        Inl e \<Rightarrow> Inl e
      | Inr (Skipped m) \<Rightarrow> Inr (fst st, snd st @ [m])
      | Inr (Box x1 y1 x2 y2) \<Rightarrow>
          (let box_width = x2 - x1; box_height = y2 - y1;
               erased = fst st @ [Rectangle x1 y1 x2 y2];
               found = wrap_text_and_find_font ff (textlength lib) (snd block) box_width box_height;
               final_font = fst (fst found);
               lines_to_draw = snd (fst found);
               shown = snd st @ snd found
           in if lines_to_draw \<noteq> [] then
                (case line_height lib final_font of
                   Inl e \<Rightarrow> Inl e
                 | Inr lh \<Rightarrow>
                     (let total_text_height = fmul (of_nat (length lines_to_draw)) lh;
                          start_y = fadd (of_int y1) (fdiv (fsub (of_int box_height) total_text_height) 2);
                          current_y = max (of_int y1) start_y
                      in Inr (erased @ draw_lines (textlength lib final_font) final_font x1 y2
                                         box_width lh current_y lines_to_draw,
                              shown)))
              else Inr (erased, shown @ [CouldNotFit (take 30 (snd block))])))"

fun overlay_loop :: "font_file \<Rightarrow> pil \<Rightarrow> int \<Rightarrow> int \<Rightarrow> (bbox \<times> string) list
    \<Rightarrow> canvas_op list \<times> message list \<Rightarrow> error + canvas_op list \<times> message list" where
  "overlay_loop ff lib img_width img_height [] st = Inr st"
| "overlay_loop ff lib img_width img_height (block # blocks) st =
     (case overlay_block ff lib img_width img_height block st of
        Inl e \<Rightarrow> Inl e
      | Inr st' \<Rightarrow> overlay_loop ff lib img_width img_height blocks st')"

text \<open>An image, and the effect of a canvas call on each of its pixels.\<close>

record image =
  width :: int
  height :: int
  pixel :: "int \<times> int \<Rightarrow> colour"

fun pixel_after :: "pil \<Rightarrow> canvas_op \<Rightarrow> int \<times> int \<Rightarrow> colour \<Rightarrow> colour" where
  "pixel_after lib (Rectangle x1 y1 x2 y2) p c =
     (case rectangle_pixels lib x1 y1 x2 y2 p of None \<Rightarrow> c | Some c' \<Rightarrow> c')"
| "pixel_after lib (DrawText x y line fnt) p c = text_pixels lib x y line fnt p c"

definition paint :: "pil \<Rightarrow> canvas_op \<Rightarrow> image \<Rightarrow> image" where
  "paint lib op img = img\<lparr>pixel := (\<lambda>p. pixel_after lib op p (pixel img p))\<rparr>"

text \<open>
  The canvas calls of the overlay loop for an image (none when the loop raises), and the
  loop run on the image: the image after all canvas calls, or the exception.
\<close>

definition canvas_calls :: "font_file \<Rightarrow> pil \<Rightarrow> (bbox \<times> string) list \<Rightarrow> image \<Rightarrow> canvas_op list" where
  "canvas_calls ff lib blocks img =
     (case overlay_loop ff lib (width img) (height img) blocks ([], []) of
        Inl e \<Rightarrow> []
      | Inr st \<Rightarrow> fst st)"

definition render :: "font_file \<Rightarrow> pil \<Rightarrow> (bbox \<times> string) list \<Rightarrow> image \<Rightarrow> error + image" where
  "render ff lib blocks img =
     (case overlay_loop ff lib (width img) (height img) blocks ([], []) of
        Inl e \<Rightarrow> Inl e
      | Inr st \<Rightarrow> Inr (fold (paint lib) (fst st) img))"

text \<open>
  A pixel is erased by a sequence of canvas calls when one of its rectangles sets it, and
  untouched by its text when no text call changes it, whatever its colour.
\<close>

fun sets_pixel :: "pil \<Rightarrow> int \<times> int \<Rightarrow> canvas_op \<Rightarrow> bool" where
  "sets_pixel lib p (Rectangle x1 y1 x2 y2) = (rectangle_pixels lib x1 y1 x2 y2 p \<noteq> None)"
| "sets_pixel lib p (DrawText x y line fnt) = False"

definition erased :: "pil \<Rightarrow> canvas_op list \<Rightarrow> int \<times> int \<Rightarrow> bool" where
  "erased lib ops p = (\<exists>op\<in>set ops. sets_pixel lib p op)"

fun leaves_pixel :: "pil \<Rightarrow> int \<times> int \<Rightarrow> canvas_op \<Rightarrow> bool" where
  "leaves_pixel lib p (Rectangle x1 y1 x2 y2) = True"
| "leaves_pixel lib p (DrawText x y line fnt) = (\<forall>c. text_pixels lib x y line fnt p c = c)"

definition no_text :: "pil \<Rightarrow> canvas_op list \<Rightarrow> int \<times> int \<Rightarrow> bool" where
  "no_text lib ops p = (\<forall>op\<in>set ops. leaves_pixel lib p op)"

text \<open>
  The layout as the specification words it, in the arithmetic of the script: the block
  starts at \<open>max(y1, y1 + (box_height - lines.count * line_height) / 2)\<close>, each line
  begins at \<open>max(x1, x1 + (box_width - measure(line)) / 2)\<close>, \<open>current_y\<close> advances by
  the line height after each line, and a line is left out exactly when its
  \<open>current_y + line_height\<close> is greater than \<open>y2 + 5\<close>.
\<close>

fun plan_lines :: "(string \<Rightarrow> rat) \<Rightarrow> font \<Rightarrow> int \<Rightarrow> int \<Rightarrow> int \<Rightarrow> rat \<Rightarrow> rat \<Rightarrow> string list
    \<Rightarrow> canvas_op list" where
  "plan_lines tlen fnt x1 y2 box_width lh current_y [] = []"
| "plan_lines tlen fnt x1 y2 box_width lh current_y (line # lines) =
     (if fadd current_y lh > of_int (y2 + 5) then []
      else [DrawText (max (of_int x1) (fadd (of_int x1) (fdiv (fsub (of_int box_width) (tlen line)) 2)))
                     current_y line fnt])
     @ plan_lines tlen fnt x1 y2 box_width lh (fadd current_y lh) lines"

definition layout_plan :: "(string \<Rightarrow> rat) \<Rightarrow> font \<Rightarrow> int \<Rightarrow> int \<Rightarrow> int \<Rightarrow> int \<Rightarrow> rat \<Rightarrow> string list
    \<Rightarrow> canvas_op list" where
  "layout_plan tlen fnt x1 y1 x2 y2 lh lines =
     (let box_width = x2 - x1; box_height = y2 - y1;
          start_y = max (of_int y1)
            (fadd (of_int y1) (fdiv (fsub (of_int box_height) (fmul (of_nat (length lines)) lh)) 2))
      in plan_lines tlen fnt x1 y2 box_width lh start_y lines)"

text \<open>A fixed-pitch metric for evaluating examples: every character is half the size wide.\<close>

fun fixed_pitch :: "font \<Rightarrow> string \<Rightarrow> rat" where
  "fixed_pitch (TrueType sz) s = of_nat (sz * length s) / 2"
| "fixed_pitch DefaultFont s = of_nat (6 * length s)"

text \<open>Black ink at half coverage on a pixel.\<close>

fun darken :: "colour \<Rightarrow> colour" where
  "darken White = Colour 127"
| "darken LightGray = Colour 105"
| "darken Black = Black"
| "darken (Colour n) = Colour (n div 2)"

text \<open>
  A drawing library for evaluating examples: fixed-pitch widths, a capital letter three
  quarters of the size high, no glyph box and size 10 for the default font, a rectangle
  that is white with a light gray border, and text that puts ink at half coverage on the
  pixels of its top row, six pixels for each character.
\<close>

definition example_pil :: pil where
  "example_pil =
     \<lparr>textlength = fixed_pitch,
      getbbox_A = (\<lambda>f. case f of TrueType sz \<Rightarrow> Some (0, of_nat sz * (3 / 4)) | DefaultFont \<Rightarrow> None),
      default_size = Some 10,
      rectangle_pixels = (\<lambda>x1 y1 x2 y2 (x, y).
        if x1 \<le> x \<and> x \<le> x2 \<and> y1 \<le> y \<and> y \<le> y2
        then Some (if x = x1 \<or> x = x2 \<or> y = y1 \<or> y = y2 then LightGray else White)
        else None),
      text_pixels = (\<lambda>x y line fnt (px, py) c.
        if py = \<lfloor>y\<rfloor> \<and> \<lfloor>x\<rfloor> \<le> px \<and> px < \<lfloor>x\<rfloor> + 6 * int (length line)
        then darken c else c)\<rparr>"

text \<open>The same library with a capital letter 16 high in every font.\<close>

definition tall_pil :: pil where
  "tall_pil = example_pil\<lparr>getbbox_A := (\<lambda>f. Some (0, 16))\<rparr>"

definition example_bbox :: bbox where
  "example_bbox =
     [(Number 10, Number 10), (Number 210, Number 10), (Number 210, Number 60), (Number 10, Number 60)]"

definition narrow_bbox :: bbox where
  "narrow_bbox =
     [(Number 10, Number 10), (Number 20, Number 10), (Number 20, Number 60), (Number 10, Number 60)]"

definition five_line_bbox :: bbox where
  "five_line_bbox =
     [(Number 0, Number 13), (Number 12, Number 13), (Number 12, Number 104), (Number 0, Number 104)]"

definition example_image :: image where
  "example_image = \<lparr>width = 300, height = 200, pixel = (\<lambda>p. Colour 7)\<rparr>"

lemma candidate_sizes_eq:
  "candidate_sizes = [40, 38, 36, 34, 32, 30, 28, 26, 24, 22, 20, 18, 16, 14, 12]"
  by (simp add: candidate_sizes_def upt_rec)

section \<open>The wrap at one size\<close>


lemma split_from_nonempty: "w \<in> set (split_from acc cs) \<Longrightarrow> w \<noteq> []"
  by (induction acc cs rule: split_from.induct) (auto split: if_splits)

lemma split_nonempty: "w \<in> set (split text) \<Longrightarrow> w \<noteq> []"
  unfolding split_def by (rule split_from_nonempty)

lemma test_line_empty [simp]: "test_line [] word = word"
  by (simp add: test_line_def)

lemma test_line_nonempty: "word \<noteq> [] \<Longrightarrow> test_line cur word \<noteq> []"
  by (simp add: test_line_def)

lemma wrap_loop_width_inv:
  assumes "\<forall>l\<in>set wrapped. m l \<le> of_int bw"
    and "cur \<noteq> [] \<longrightarrow> m cur \<le> of_int bw"
    and "wrap_loop m bw ml wrapped cur words = (wrapped', cur')"
    and "cur' \<noteq> []"
  shows "(\<forall>l\<in>set wrapped'. m l \<le> of_int bw) \<and> m cur' \<le> of_int bw"
  using assms
proof (induction words arbitrary: wrapped cur)
  case Nil
  then show ?case by simp
next
  case (Cons word words)
  show ?case
  proof (cases "m (test_line cur word) \<le> of_int bw")
    case True
    with Cons.prems have "wrap_loop m bw ml wrapped (test_line cur word) words = (wrapped', cur')"
      by simp
    from Cons.IH [OF Cons.prems(1) _ this Cons.prems(4)] True show ?thesis by simp
  next
    case False
    note nofit = this
    show ?thesis
    proof (cases "cur = []")
      case True
      with nofit have "m word > of_int bw" by simp
      with nofit Cons.prems(3) have "cur' = []" by (simp split: if_splits)
      with Cons.prems(4) show ?thesis by simp
    next
      case False
      with Cons.prems(2) have curfit: "m cur \<le> of_int bw" by simp
      from nofit Cons.prems(3) Cons.prems(4)
      have cont: "\<not> int (length (wrapped @ [cur])) \<ge> ml" "\<not> m word > of_int bw"
        "wrap_loop m bw ml (wrapped @ [cur]) word words = (wrapped', cur')"
        by (auto split: if_splits)
      have "\<forall>l\<in>set (wrapped @ [cur]). m l \<le> of_int bw"
        using Cons.prems(1) curfit by simp
      from Cons.IH [OF this _ cont(3) Cons.prems(4)] cont(2) show ?thesis by simp
    qed
  qed
qed

lemma wrap_loop_nonempty_inv:
  assumes "\<forall>w\<in>set words. w \<noteq> []"
    and "\<forall>l\<in>set wrapped. l \<noteq> []"
    and "cur = [] \<longrightarrow> wrapped = []"
    and "wrap_loop m bw ml wrapped cur words = (wrapped', cur')"
    and "cur' \<noteq> []"
  shows "\<forall>l\<in>set wrapped'. l \<noteq> []"
  using assms
proof (induction words arbitrary: wrapped cur)
  case Nil
  then show ?case by simp
next
  case (Cons word words)
  from Cons.prems(1) have w: "word \<noteq> []" and ws: "\<forall>w\<in>set words. w \<noteq> []" by simp_all
  show ?case
  proof (cases "m (test_line cur word) \<le> of_int bw")
    case True
    with Cons.prems have run: "wrap_loop m bw ml wrapped (test_line cur word) words = (wrapped', cur')"
      by simp
    have "test_line cur word = [] \<longrightarrow> wrapped = []"
      using test_line_nonempty [OF w] by simp
    from Cons.IH [OF ws Cons.prems(2) this run Cons.prems(5)] show ?thesis .
  next
    case False
    note nofit = this
    show ?thesis
    proof (cases "cur = []")
      case True
      with nofit have "m word > of_int bw" by simp
      with nofit Cons.prems(4) have "cur' = []" by (simp split: if_splits)
      with Cons.prems(5) show ?thesis by simp
    next
      case False
      from nofit Cons.prems(4) Cons.prems(5)
      have cont: "wrap_loop m bw ml (wrapped @ [cur]) word words = (wrapped', cur')"
        by (auto split: if_splits)
      have a: "\<forall>l\<in>set (wrapped @ [cur]). l \<noteq> []" using Cons.prems(2) False by simp
      have b: "word = [] \<longrightarrow> wrapped @ [cur] = []" using w by simp
      from Cons.IH [OF ws a b cont Cons.prems(5)] show ?thesis .
    qed
  qed
qed


lemma wrap_at_SomeD:
  assumes "wrap_at tlen fnt text bw bh sz = Some lines"
  shows "(split text = [] \<and> lines = []) \<or>
         (split text \<noteq> [] \<and> max_lines_at bh sz \<noteq> 0 \<and>
          (\<exists>wrapped cur. wrap_loop (tlen fnt) bw (max_lines_at bh sz) [] [] (split text) = (wrapped, cur)
             \<and> cur \<noteq> [] \<and> lines = wrapped @ [cur] \<and> int (length lines) \<le> max_lines_at bh sz))"
  using assms
  by (auto simp: wrap_at_def Let_def split: if_splits prod.splits)

text \<open>Evaluations with the fixed-pitch metric.\<close>

lemma hello_world_at_36: "wrap_at fixed_pitch (TrueType 36) ''Hello world'' 200 50 36 = Some [''Hello world'']"
  by code_simp

lemma hello_world_at_38: "wrap_at fixed_pitch (TrueType 38) ''Hello world'' 200 50 38 = None"
  by code_simp

lemma hello_world_at_40: "wrap_at fixed_pitch (TrueType 40) ''Hello world'' 200 50 40 = None"
  by code_simp

lemma two_lines_at_20: "wrap_at fixed_pitch (TrueType 20) ''aa bb'' 30 48 20 = Some [''aa'', ''bb'']"
  by code_simp

lemma long_word_fallback: "fallback_wrap fixed_pitch (TrueType 12) ''abcdefgh'' 10 50 = [[], ''abcdefgh'']"
  by code_simp

lemma long_word_fails:
  "\<forall>t\<in>set candidate_sizes.
     wrap_at fixed_pitch (TrueType t) ''abcdefgh'' 10 50 t = None"
  unfolding candidate_sizes_eq by code_simp

text \<open>
  Claim C3. When the wrap returns at a size, every line it returns is at most
  \<open>box_width\<close> wide in the font of that size.
\<close>

theorem wrapped_lines_within_width:
  assumes "wrap_at tlen fnt text bw bh sz = Some lines"
  shows "\<forall>l\<in>set lines. tlen fnt l \<le> of_int bw"
proof -
  from wrap_at_SomeD [OF assms] show ?thesis
  proof
    assume "split text = [] \<and> lines = []" then show ?thesis by simp
  next
    assume "split text \<noteq> [] \<and> max_lines_at bh sz \<noteq> 0 \<and>
          (\<exists>wrapped cur. wrap_loop (tlen fnt) bw (max_lines_at bh sz) [] [] (split text) = (wrapped, cur)
             \<and> cur \<noteq> [] \<and> lines = wrapped @ [cur] \<and> int (length lines) \<le> max_lines_at bh sz)"
    then obtain wrapped cur where
      run: "wrap_loop (tlen fnt) bw (max_lines_at bh sz) [] [] (split text) = (wrapped, cur)"
      and cur: "cur \<noteq> []" and lines: "lines = wrapped @ [cur]" by blast
    have "(\<forall>l\<in>set wrapped. tlen fnt l \<le> of_int bw) \<and> tlen fnt cur \<le> of_int bw"
      by (rule wrap_loop_width_inv [OF _ _ run cur]) simp_all
    with lines show ?thesis by simp
  qed
qed

theorem wrapped_lines_within_width_witness:
  "wrap_at fixed_pitch (TrueType 20) ''aa bb'' 30 48 20 = Some [''aa'', ''bb'']
   \<and> fixed_pitch (TrueType 20) ''aa'' \<le> of_int 30 \<and> fixed_pitch (TrueType 20) ''bb'' \<le> of_int 30"
  using wrapped_lines_within_width [OF two_lines_at_20] two_lines_at_20
  by simp

text \<open>
  Claim C10. When the wrap returns at a size, none of its lines is the empty string: a
  run that closes an empty \<open>current_line\<close> leaves the word loop through a
  \<^verbatim>\<open>break\<close>.
\<close>

theorem wrapped_lines_nonempty:
  assumes "wrap_at tlen fnt text bw bh sz = Some lines"
  shows "\<forall>l\<in>set lines. l \<noteq> []"
proof -
  from wrap_at_SomeD [OF assms] show ?thesis
  proof
    assume "split text = [] \<and> lines = []" then show ?thesis by simp
  next
    assume "split text \<noteq> [] \<and> max_lines_at bh sz \<noteq> 0 \<and>
          (\<exists>wrapped cur. wrap_loop (tlen fnt) bw (max_lines_at bh sz) [] [] (split text) = (wrapped, cur)
             \<and> cur \<noteq> [] \<and> lines = wrapped @ [cur] \<and> int (length lines) \<le> max_lines_at bh sz)"
    then obtain wrapped cur where
      run: "wrap_loop (tlen fnt) bw (max_lines_at bh sz) [] [] (split text) = (wrapped, cur)"
      and cur: "cur \<noteq> []" and lines: "lines = wrapped @ [cur]" by blast
    have "\<forall>l\<in>set wrapped. l \<noteq> []"
      by (rule wrap_loop_nonempty_inv [OF _ _ _ run cur]) (simp_all add: split_nonempty)
    with lines cur show ?thesis by simp
  qed
qed


theorem wrapped_lines_nonempty_witness:
  "wrap_at fixed_pitch (TrueType 36) ''Hello world'' 200 50 36 = Some [''Hello world'']
   \<and> ''Hello world'' \<noteq> []"
  using wrapped_lines_nonempty [OF hello_world_at_36] hello_world_at_36
  by simp

lemma size_search_cases:
  "(\<exists>pre s post ls. sizes = pre @ s # post
      \<and> (\<forall>t\<in>set pre. wrap_at tlen (fst (load_font ff t)) text bw bh t = None)
      \<and> wrap_at tlen (fst (load_font ff s)) text bw bh s = Some ls
      \<and> size_search ff tlen text bw bh sizes shown =
          ((fst (load_font ff s), ls), shown @ concat (map (\<lambda>t. snd (load_font ff t)) (pre @ [s]))))
   \<or> ((\<forall>t\<in>set sizes. wrap_at tlen (fst (load_font ff t)) text bw bh t = None)
      \<and> size_search ff tlen text bw bh sizes shown =
          ((fst (load_font ff 12), fallback_wrap tlen (fst (load_font ff 12)) text bw bh),
           shown @ concat (map (\<lambda>t. snd (load_font ff t)) (sizes @ [12]))))"
proof (induction sizes arbitrary: shown)
  case Nil
  show ?case by (simp add: split_beta)
next
  case (Cons sz sizes)
  show ?case
  proof (cases "wrap_at tlen (fst (load_font ff sz)) text bw bh sz")
    case (Some ls)
    then have "size_search ff tlen text bw bh (sz # sizes) shown =
        ((fst (load_font ff sz), ls), shown @ concat (map (\<lambda>t. snd (load_font ff t)) ([] @ [sz])))"
      by (simp add: split_beta)
    with Some have "\<exists>pre s post ls. sz # sizes = pre @ s # post
      \<and> (\<forall>t\<in>set pre. wrap_at tlen (fst (load_font ff t)) text bw bh t = None)
      \<and> wrap_at tlen (fst (load_font ff s)) text bw bh s = Some ls
      \<and> size_search ff tlen text bw bh (sz # sizes) shown =
          ((fst (load_font ff s), ls), shown @ concat (map (\<lambda>t. snd (load_font ff t)) (pre @ [s])))"
      by (intro exI [of _ "[]"] exI [of _ sz] exI [of _ sizes] exI [of _ ls]) simp
    then show ?thesis by blast
  next
    case None
    then have step: "size_search ff tlen text bw bh (sz # sizes) shown =
        size_search ff tlen text bw bh sizes (shown @ snd (load_font ff sz))"
      by (simp add: split_beta)
    from Cons.IH [of "shown @ snd (load_font ff sz)"] show ?thesis
    proof
      assume "\<exists>pre s post ls. sizes = pre @ s # post
      \<and> (\<forall>t\<in>set pre. wrap_at tlen (fst (load_font ff t)) text bw bh t = None)
      \<and> wrap_at tlen (fst (load_font ff s)) text bw bh s = Some ls
      \<and> size_search ff tlen text bw bh sizes (shown @ snd (load_font ff sz)) =
          ((fst (load_font ff s), ls), (shown @ snd (load_font ff sz)) @ concat (map (\<lambda>t. snd (load_font ff t)) (pre @ [s])))"
      then obtain pre s post ls where h: "sizes = pre @ s # post"
        "\<forall>t\<in>set pre. wrap_at tlen (fst (load_font ff t)) text bw bh t = None"
        "wrap_at tlen (fst (load_font ff s)) text bw bh s = Some ls"
        "size_search ff tlen text bw bh sizes (shown @ snd (load_font ff sz)) =
          ((fst (load_font ff s), ls), (shown @ snd (load_font ff sz)) @ concat (map (\<lambda>t. snd (load_font ff t)) (pre @ [s])))"
        by blast
      have "\<exists>pre s post ls. sz # sizes = pre @ s # post
      \<and> (\<forall>t\<in>set pre. wrap_at tlen (fst (load_font ff t)) text bw bh t = None)
      \<and> wrap_at tlen (fst (load_font ff s)) text bw bh s = Some ls
      \<and> size_search ff tlen text bw bh (sz # sizes) shown =
          ((fst (load_font ff s), ls), shown @ concat (map (\<lambda>t. snd (load_font ff t)) (pre @ [s])))"
        using h None step
        by (intro exI [of _ "sz # pre"] exI [of _ s] exI [of _ post] exI [of _ ls]) simp
      then show ?thesis by blast
    next
      assume "(\<forall>t\<in>set sizes. wrap_at tlen (fst (load_font ff t)) text bw bh t = None)
      \<and> size_search ff tlen text bw bh sizes (shown @ snd (load_font ff sz)) =
          ((fst (load_font ff 12), fallback_wrap tlen (fst (load_font ff 12)) text bw bh),
           (shown @ snd (load_font ff sz)) @ concat (map (\<lambda>t. snd (load_font ff t)) (sizes @ [12])))"
      with None step show ?thesis by simp
    qed
  qed
qed

lemma candidate_sizes_split:
  assumes "candidate_sizes = pre @ s # post" and "t \<in> set candidate_sizes" and "s < t"
  shows "t \<in> set pre"
proof -
  have "sorted_wrt (>) candidate_sizes" by (simp add: candidate_sizes_eq)
  then have "sorted_wrt (>) (pre @ s # post)" unfolding assms(1) .
  then have "\<forall>u\<in>set post. u < s" by (simp add: sorted_wrt_append)
  moreover have "t \<in> set (pre @ s # post)" using assms(2) unfolding assms(1) .
  ultimately show ?thesis using assms(3) by auto
qed

lemma candidate_sizes_ge: "s \<in> set candidate_sizes \<Longrightarrow> 12 \<le> s"
  by (auto simp: candidate_sizes_eq)

text \<open>
  Claim C1. The search tries the sizes 40, 38, ..., 12 in this order. Its result is the
  font loaded for the largest of these sizes at which the wrap returns, with the lines of
  that wrap; when the wrap returns at none of them, it is the font loaded for size 12 with
  the lines of the fallback pass. So the size of the result is always one of 40, 38, ..., 12.
\<close>

theorem font_size_search:
  "(\<exists>s ls. s \<in> set candidate_sizes
      \<and> (\<forall>t\<in>set candidate_sizes. s < t \<longrightarrow> wrap_at tlen (fst (load_font ff t)) text bw bh t = None)
      \<and> wrap_at tlen (fst (load_font ff s)) text bw bh s = Some ls
      \<and> fst (wrap_text_and_find_font ff tlen text bw bh) = (fst (load_font ff s), ls))
   \<or> ((\<forall>t\<in>set candidate_sizes. wrap_at tlen (fst (load_font ff t)) text bw bh t = None)
      \<and> fst (wrap_text_and_find_font ff tlen text bw bh) =
          (fst (load_font ff 12), fallback_wrap tlen (fst (load_font ff 12)) text bw bh))"
proof -
  from size_search_cases [of candidate_sizes tlen ff "text" bw bh "[]"] show ?thesis
  proof
    assume "\<exists>pre s post ls. candidate_sizes = pre @ s # post
      \<and> (\<forall>t\<in>set pre. wrap_at tlen (fst (load_font ff t)) text bw bh t = None)
      \<and> wrap_at tlen (fst (load_font ff s)) text bw bh s = Some ls
      \<and> size_search ff tlen text bw bh candidate_sizes [] =
          ((fst (load_font ff s), ls), [] @ concat (map (\<lambda>t. snd (load_font ff t)) (pre @ [s])))"
    then obtain pre s post ls where h: "candidate_sizes = pre @ s # post"
        "\<forall>t\<in>set pre. wrap_at tlen (fst (load_font ff t)) text bw bh t = None"
        "wrap_at tlen (fst (load_font ff s)) text bw bh s = Some ls"
        "size_search ff tlen text bw bh candidate_sizes [] =
          ((fst (load_font ff s), ls), [] @ concat (map (\<lambda>t. snd (load_font ff t)) (pre @ [s])))"
      by blast
    have "s \<in> set (pre @ s # post)" by simp
    then have a: "s \<in> set candidate_sizes" unfolding h(1) [symmetric] .
    have b: "\<forall>t\<in>set candidate_sizes. s < t \<longrightarrow> wrap_at tlen (fst (load_font ff t)) text bw bh t = None"
      using candidate_sizes_split [OF h(1)] h(2) by blast
    have c: "fst (wrap_text_and_find_font ff tlen text bw bh) = (fst (load_font ff s), ls)"
      using h(4) by (simp add: wrap_text_and_find_font_def)
    from a b c h(3) show ?thesis by blast
  next
    assume "(\<forall>t\<in>set candidate_sizes. wrap_at tlen (fst (load_font ff t)) text bw bh t = None)
      \<and> size_search ff tlen text bw bh candidate_sizes [] =
          ((fst (load_font ff 12), fallback_wrap tlen (fst (load_font ff 12)) text bw bh),
           [] @ concat (map (\<lambda>t. snd (load_font ff t)) (candidate_sizes @ [12])))"
    then show ?thesis by (simp add: wrap_text_and_find_font_def)
  qed
qed


theorem font_size_search_witness:
  "fst (wrap_text_and_find_font FontPresent fixed_pitch ''Hello world'' 200 50)
     = (TrueType 36, [''Hello world''])"
proof -
  have font: "\<And>t. fst (load_font FontPresent t) = TrueType t" by (simp add: load_font_def)
  have in36: "(36::nat) \<in> set candidate_sizes" by (simp add: candidate_sizes_eq)
  from font_size_search [of fixed_pitch FontPresent "''Hello world''" 200 50] show ?thesis
    unfolding font
  proof
    assume "\<exists>s ls. s \<in> set candidate_sizes
      \<and> (\<forall>t\<in>set candidate_sizes. s < t \<longrightarrow> wrap_at fixed_pitch (TrueType t) ''Hello world'' 200 50 t = None)
      \<and> wrap_at fixed_pitch (TrueType s) ''Hello world'' 200 50 s = Some ls
      \<and> fst (wrap_text_and_find_font FontPresent fixed_pitch ''Hello world'' 200 50) = (TrueType s, ls)"
    then obtain s ls where s: "s \<in> set candidate_sizes"
      and larger: "\<forall>t\<in>set candidate_sizes. s < t \<longrightarrow> wrap_at fixed_pitch (TrueType t) ''Hello world'' 200 50 t = None"
      and here: "wrap_at fixed_pitch (TrueType s) ''Hello world'' 200 50 s = Some ls"
      and res: "fst (wrap_text_and_find_font FontPresent fixed_pitch ''Hello world'' 200 50) = (TrueType s, ls)"
      by blast
    have "\<not> s < 36" using larger in36 hello_world_at_36 by auto
    moreover have "s \<noteq> 38" using here hello_world_at_38 by auto
    moreover have "s \<noteq> 40" using here hello_world_at_40 by auto
    ultimately have "s = 36" using s by (auto simp: candidate_sizes_eq)
    with here res hello_world_at_36 show ?thesis by simp
  next
    assume "(\<forall>t\<in>set candidate_sizes. wrap_at fixed_pitch (TrueType t) ''Hello world'' 200 50 t = None)
      \<and> fst (wrap_text_and_find_font FontPresent fixed_pitch ''Hello world'' 200 50) =
          (TrueType 12, fallback_wrap fixed_pitch (TrueType 12) ''Hello world'' 200 50)"
    with in36 hello_world_at_36 show ?thesis by auto
  qed
qed

lemma py_int_nonneg: "0 \<le> x \<Longrightarrow> py_int x = \<lfloor>x\<rfloor>"
  by (simp add: py_int_def)

lemma py_int_pos: "1 \<le> py_int x \<Longrightarrow> py_int x = \<lfloor>x\<rfloor>"
proof (cases "0 \<le> x")
  case True
  then show ?thesis by (simp add: py_int_def)
next
  case False
  then have "\<lceil>x\<rceil> \<le> 0" by (simp add: ceiling_le_zero)
  moreover assume "1 \<le> py_int x"
  ultimately show ?thesis using False by (simp add: py_int_def)
qed

lemma max_lines_at_floor:
  assumes "int n \<le> max_lines_at bh sz" and "0 \<le> bh \<or> 0 < n"
  shows "int n \<le> \<lfloor>of_int bh / line_height_approx sz\<rfloor>"
proof (cases "0 < n")
  case True
  with assms(1) have "1 \<le> py_int (of_int bh / line_height_approx sz)"
    by (simp add: max_lines_at_def)
  from py_int_pos [OF this] assms(1) show ?thesis by (simp add: max_lines_at_def)
next
  case False
  with assms(2) have "0 \<le> bh" by simp
  then have "(0::rat) \<le> of_int bh / line_height_approx sz"
    by (simp add: line_height_approx_def)
  from py_int_nonneg [OF this] assms(1) show ?thesis by (simp add: max_lines_at_def)
qed

lemma fallback_loop_length:
  "fallback_loop m bw ml wrapped cur words = (wrapped', cur')
    \<Longrightarrow> int (length wrapped') \<le> max (int (length wrapped)) ml"
proof (induction words arbitrary: wrapped cur)
  case Nil
  then show ?case by simp
next
  case (Cons word words)
  show ?case
  proof (cases "m (test_line cur word) \<le> of_int bw")
    case True
    with Cons.prems have "fallback_loop m bw ml wrapped (test_line cur word) words = (wrapped', cur')"
      by simp
    from Cons.IH [OF this] show ?thesis .
  next
    case False
    show ?thesis
    proof (cases "int (length wrapped) < ml")
      case True
      with False Cons.prems have "fallback_loop m bw ml (wrapped @ [cur]) word words = (wrapped', cur')"
        by simp
      from Cons.IH [OF this] True show ?thesis by simp
    next
      case nolines: False
      with False Cons.prems have "wrapped' = wrapped" by simp
      then show ?thesis by simp
    qed
  qed
qed

lemma fallback_wrap_length:
  "int (length (fallback_wrap tlen fnt text bw bh)) \<le> max 0 (max_lines_at bh 12)"
proof -
  obtain wrapped cur where
    run: "fallback_loop (tlen fnt) bw (max_lines_at bh 12) [] [] (split text) = (wrapped, cur)"
    by (cases "fallback_loop (tlen fnt) bw (max_lines_at bh 12) [] [] (split text)")
  from fallback_loop_length [OF run] have "int (length wrapped) \<le> max 0 (max_lines_at bh 12)"
    by simp
  with run show ?thesis
    by (simp add: fallback_wrap_def Let_def line_height_approx_def)
qed

text \<open>
  Claim C2. A wrap that returns at a size, and the fallback pass at size 12, give at most
  \<open>floor (box_height / (1.2 * size))\<close> lines. The box height is not negative, as in the
  overlay loop, or there is at least one line: for a negative height the floor is negative
  while no lines are returned.
\<close>

theorem line_count_within_height:
  "(wrap_at tlen fnt text bw bh sz = Some lines \<and> (0 \<le> bh \<or> lines \<noteq> [])
      \<longrightarrow> int (length lines) \<le> \<lfloor>of_int bh / line_height_approx sz\<rfloor>)
   \<and> (0 \<le> bh \<or> fallback_wrap tlen fnt text bw bh \<noteq> []
      \<longrightarrow> int (length (fallback_wrap tlen fnt text bw bh)) \<le> \<lfloor>of_int bh / line_height_approx 12\<rfloor>)"
proof (intro conjI impI)
  assume a: "wrap_at tlen fnt text bw bh sz = Some lines \<and> (0 \<le> bh \<or> lines \<noteq> [])"
  then have "int (length lines) \<le> max_lines_at bh sz \<or> lines = []"
    using wrap_at_SomeD [of tlen fnt "text" bw bh sz lines] by blast
  then show "int (length lines) \<le> \<lfloor>of_int bh / line_height_approx sz\<rfloor>"
  proof
    assume "int (length lines) \<le> max_lines_at bh sz"
    then show ?thesis using a by (intro max_lines_at_floor) auto
  next
    assume e: "lines = []"
    with a have "0 \<le> bh" by simp
    then have "(0::rat) \<le> of_int bh / line_height_approx sz"
      by (simp add: line_height_approx_def)
    with e show ?thesis by simp
  qed
next
  let ?ls = "fallback_wrap tlen fnt text bw bh"
  assume a: "0 \<le> bh \<or> ?ls \<noteq> []"
  show "int (length ?ls) \<le> \<lfloor>of_int bh / line_height_approx 12\<rfloor>"
  proof (cases "?ls = []")
    case True
    with a have "0 \<le> bh" by simp
    then have "(0::rat) \<le> of_int bh / line_height_approx 12"
      by (simp add: line_height_approx_def)
    with True show ?thesis by simp
  next
    case False
    then have "0 < length ?ls" by simp
    then have "0 < int (length ?ls)" by simp
    with fallback_wrap_length [of tlen fnt "text" bw bh]
    have "int (length ?ls) \<le> max_lines_at bh 12" by linarith
    then show ?thesis using \<open>0 < length ?ls\<close> by (intro max_lines_at_floor) auto
  qed
qed

theorem line_count_within_height_witness:
  "wrap_at fixed_pitch (TrueType 36) ''Hello world'' 200 50 36 = Some [''Hello world'']
   \<and> (0::int) \<le> 50
   \<and> int (length [''Hello world'']) \<le> \<lfloor>of_int 50 / line_height_approx 36\<rfloor>
   \<and> int (length (fallback_wrap fixed_pitch (TrueType 12) ''abcdefgh'' 10 50))
        \<le> \<lfloor>of_int 50 / line_height_approx 12\<rfloor>"
  using line_count_within_height [of fixed_pitch "TrueType 36" "''Hello world''" 200 50 36
      "[''Hello world'']"]
    line_count_within_height [of fixed_pitch "TrueType 12" "''abcdefgh''" 10 50]
    hello_world_at_36
  by simp

section \<open>Failures of the wrap and messages of the font loader\<close>

lemma wrap_exit_break:
  "wrap_exit m bw ml wrapped cur words \<noteq> Finished
     \<Longrightarrow> snd (wrap_loop m bw ml wrapped cur words) = []"
  by (induction m bw ml wrapped cur words rule: wrap_loop.induct) (auto split: if_splits)

text \<open>
  Claim C4, as amended. The claim says that a failed wrap tells a width failure from a
  height failure. The script does not: both \<^verbatim>\<open>break\<close> statements set
  \<open>current_line\<close> to the empty string, and in both cases the pass returns nothing and
  the search goes on to the next size.
\<close>

theorem wrap_failure_uniform:
  assumes "wrap_exit (tlen fnt) bw (max_lines_at bh sz) [] [] (split text) = HeightBreak
         \<or> wrap_exit (tlen fnt) bw (max_lines_at bh sz) [] [] (split text) = WidthBreak"
  shows "snd (wrap_loop (tlen fnt) bw (max_lines_at bh sz) [] [] (split text)) = []
       \<and> wrap_at tlen fnt text bw bh sz = None"
proof -
  from assms have ne: "wrap_exit (tlen fnt) bw (max_lines_at bh sz) [] [] (split text) \<noteq> Finished"
    by auto
  then have words: "split text \<noteq> []" by auto
  from wrap_exit_break [OF ne]
  have cur: "snd (wrap_loop (tlen fnt) bw (max_lines_at bh sz) [] [] (split text)) = []" .
  with words show ?thesis by (simp add: wrap_at_def Let_def split_beta)
qed

theorem wrap_failure_uniform_witness:
  "wrap_exit (fixed_pitch (TrueType 20)) 30 (max_lines_at 48 20) [] [] (split ''aa bbbbbb'') = WidthBreak
   \<and> snd (wrap_loop (fixed_pitch (TrueType 20)) 30 (max_lines_at 48 20) [] [] (split ''aa bbbbbb'')) = []
   \<and> wrap_at fixed_pitch (TrueType 20) ''aa bbbbbb'' 30 48 20 = None"
proof -
  have w: "wrap_exit (fixed_pitch (TrueType 20)) 30 (max_lines_at 48 20) [] [] (split ''aa bbbbbb'') = WidthBreak"
    by code_simp
  with wrap_failure_uniform [of fixed_pitch "TrueType 20" 30 48 20 "''aa bbbbbb''"]
  show ?thesis by simp
qed

text \<open>
  Claim C4 as stated fails: in a box of 30 by 48 at size 20, \<open>''aa bbbbbb''\<close> leaves the
  word loop at the width \<^verbatim>\<open>break\<close> and \<open>''aa bb cc''\<close> at the height
  \<^verbatim>\<open>break\<close>, and the two passes have the same result.
\<close>

theorem failure_kinds_counterexample:
  "wrap_exit (fixed_pitch (TrueType 20)) 30 (max_lines_at 48 20) [] [] (split ''aa bbbbbb'') = WidthBreak
   \<and> wrap_exit (fixed_pitch (TrueType 20)) 30 (max_lines_at 48 20) [] [] (split ''aa bb cc'') = HeightBreak
   \<and> wrap_at fixed_pitch (TrueType 20) ''aa bbbbbb'' 30 48 20 = None
   \<and> wrap_at fixed_pitch (TrueType 20) ''aa bb cc'' 30 48 20
       = wrap_at fixed_pitch (TrueType 20) ''aa bbbbbb'' 30 48 20"
  by code_simp

lemma concat_singletons_length:
  "\<forall>x\<in>set xs. length (f x) = 1 \<Longrightarrow> length (concat (map f xs)) = length xs"
  by (induction xs) auto

lemma load_font_default:
  "ff \<noteq> FontPresent \<Longrightarrow> fst (load_font ff sz) = DefaultFont \<and> length (snd (load_font ff sz)) = 1"
  by (cases ff) (simp_all add: load_font_def)

text \<open>
  Claim C8, as amended. The claim says that at most one warning is shown in a run. With
  the font file missing or not loadable, every call of \<^verbatim>\<open>load_font\<close> gives the
  default font and shows one message, and the search calls it once for every size it
  tries and once more for the fallback pass.
\<close>

theorem font_messages_per_load:
  assumes "ff \<noteq> FontPresent"
  shows "fst (load_font ff sz) = DefaultFont \<and> length (snd (load_font ff sz)) = 1
       \<and> fst (fst (wrap_text_and_find_font ff tlen text bw bh)) = DefaultFont
       \<and> length (snd (wrap_text_and_find_font ff tlen text bw bh)) =
           Suc (length (takeWhile (\<lambda>s. wrap_at tlen DefaultFont text bw bh s = None) candidate_sizes))"
proof -
  have font: "\<And>t. fst (load_font ff t) = DefaultFont"
    and one: "\<And>t. length (snd (load_font ff t)) = 1"
    using load_font_default [OF assms] by simp_all
  have len: "\<And>xs. length (concat (map (\<lambda>t. snd (load_font ff t)) xs)) = length xs"
    by (rule concat_singletons_length) (simp add: one)
  let ?P = "\<lambda>s. wrap_at tlen DefaultFont text bw bh s = None"
  from size_search_cases [of candidate_sizes tlen ff "text" bw bh "[]"]
  have "fst (fst (wrap_text_and_find_font ff tlen text bw bh)) = DefaultFont
       \<and> length (snd (wrap_text_and_find_font ff tlen text bw bh)) =
           Suc (length (takeWhile ?P candidate_sizes))"
    unfolding font
  proof
    assume "\<exists>pre s post ls. candidate_sizes = pre @ s # post
      \<and> (\<forall>t\<in>set pre. wrap_at tlen DefaultFont text bw bh t = None)
      \<and> wrap_at tlen DefaultFont text bw bh s = Some ls
      \<and> size_search ff tlen text bw bh candidate_sizes [] =
          ((DefaultFont, ls), [] @ concat (map (\<lambda>t. snd (load_font ff t)) (pre @ [s])))"
    then obtain pre s post ls where h: "candidate_sizes = pre @ s # post"
        "\<forall>t\<in>set pre. wrap_at tlen DefaultFont text bw bh t = None"
        "wrap_at tlen DefaultFont text bw bh s = Some ls"
        "size_search ff tlen text bw bh candidate_sizes [] =
          ((DefaultFont, ls), [] @ concat (map (\<lambda>t. snd (load_font ff t)) (pre @ [s])))"
      by blast
    have "takeWhile ?P (pre @ s # post) = pre"
      using h(2) h(3) by (simp add: takeWhile_append2)
    then have "takeWhile ?P candidate_sizes = pre" unfolding h(1) [symmetric] .
    with h(4) len [of "pre @ [s]"] show ?thesis
      by (simp add: wrap_text_and_find_font_def)
  next
    assume a: "(\<forall>t\<in>set candidate_sizes. wrap_at tlen DefaultFont text bw bh t = None)
      \<and> size_search ff tlen text bw bh candidate_sizes [] =
          ((DefaultFont, fallback_wrap tlen DefaultFont text bw bh),
           [] @ concat (map (\<lambda>t. snd (load_font ff t)) (candidate_sizes @ [12])))"
    then have "\<forall>t\<in>set candidate_sizes. ?P t" by blast
    then have "takeWhile ?P candidate_sizes = candidate_sizes"
      by (rule takeWhile_eq_all_conv [THEN iffD2])
    then have tw: "length (takeWhile ?P candidate_sizes) = length candidate_sizes"
      by (rule arg_cong)
    have "length (snd (size_search ff tlen text bw bh candidate_sizes [])) = Suc (length candidate_sizes)"
      using a len [of "candidate_sizes @ [12]"] by simp
    with a show ?thesis unfolding tw
      by (simp add: wrap_text_and_find_font_def)
  qed
  with font one show ?thesis by simp
qed

lemma corrupt_font_run:
  "snd (wrap_text_and_find_font FontCorrupt fixed_pitch ''abcdefgh'' 10 50) =
     replicate 16 FontLoadError"
  by code_simp

text \<open>
  Claim C8 as stated fails: with a font file that does not load, the search for one block
  whose word fits at no size shows sixteen warnings.
\<close>

theorem warn_once_counterexample:
  "\<not> length (snd (wrap_text_and_find_font FontCorrupt fixed_pitch ''abcdefgh'' 10 50)) \<le> 1"
  by (simp add: corrupt_font_run)

theorem font_messages_per_load_witness:
  "FontMissing \<noteq> FontPresent
   \<and> fst (fst (wrap_text_and_find_font FontMissing fixed_pitch ''abcdefgh'' 10 50)) = DefaultFont
   \<and> length (snd (wrap_text_and_find_font FontMissing fixed_pitch ''abcdefgh'' 10 50)) = 16"
proof -
  have "takeWhile (\<lambda>s. wrap_at fixed_pitch DefaultFont ''abcdefgh'' 10 50 s = None) candidate_sizes
      = candidate_sizes"
    unfolding candidate_sizes_eq by code_simp
  then have "length (takeWhile (\<lambda>s. wrap_at fixed_pitch DefaultFont ''abcdefgh'' 10 50 s = None) candidate_sizes) = 15"
    by (simp add: candidate_sizes_eq)
  with font_messages_per_load [of FontMissing 12 fixed_pitch "''abcdefgh''" 10 50]
  show ?thesis by simp
qed

section \<open>An over-wide first word in the fallback pass\<close>

lemma fallback_loop_prefix:
  "fallback_loop m bw ml wrapped cur words = (wrapped', cur') \<Longrightarrow> prefix wrapped wrapped'"
proof (induction words arbitrary: wrapped cur)
  case Nil
  then show ?case by simp
next
  case (Cons word words)
  show ?case
  proof (cases "m (test_line cur word) \<le> of_int bw")
    case True
    with Cons.prems have "fallback_loop m bw ml wrapped (test_line cur word) words = (wrapped', cur')"
      by simp
    from Cons.IH [OF this] show ?thesis .
  next
    case False
    show ?thesis
    proof (cases "int (length wrapped) < ml")
      case True
      with False Cons.prems have "fallback_loop m bw ml (wrapped @ [cur]) word words = (wrapped', cur')"
        by simp
      from Cons.IH [OF this] show ?thesis by (rule append_prefixD)
    next
      case nolines: False
      with False Cons.prems show ?thesis by simp
    qed
  qed
qed

lemma fallback_loop_full:
  "\<not> int (length wrapped) < ml \<Longrightarrow> fst (fallback_loop m bw ml wrapped cur words) = wrapped"
  by (induction words arbitrary: cur) auto

lemma test_line_prefix: "prefix w cur \<Longrightarrow> prefix w (test_line cur word)"
  by (auto simp: test_line_def prefix_def)

lemma fallback_second_line:
  assumes "2 \<le> ml" and "prefix w1 cur" and "cur \<noteq> []"
    and "fallback_loop m bw ml [[]] cur ws = (wrapped', cur')"
  shows "(wrapped' = [[]] \<and> prefix w1 cur' \<and> cur' \<noteq> [])
       \<or> (\<exists>l2 more. wrapped' = [] # l2 # more \<and> prefix w1 l2)"
  using assms(2-)
proof (induction ws arbitrary: cur)
  case Nil
  then show ?case by simp
next
  case (Cons word words)
  show ?case
  proof (cases "m (test_line cur word) \<le> of_int bw")
    case True
    with Cons.prems have run: "fallback_loop m bw ml [[]] (test_line cur word) words = (wrapped', cur')"
      by simp
    have "test_line cur word \<noteq> []" using Cons.prems(2) by (simp add: test_line_def)
    from Cons.IH [OF test_line_prefix [OF Cons.prems(1)] this run] show ?thesis .
  next
    case False
    with assms(1) Cons.prems have "fallback_loop m bw ml ([[]] @ [cur]) word words = (wrapped', cur')"
      by simp
    from fallback_loop_prefix [OF this] obtain more where "wrapped' = [] # cur # more"
      by (auto simp: prefix_def)
    with Cons.prems(1) show ?thesis by blast
  qed
qed

text \<open>
  Claim C9, as amended. In the fallback pass, when the first word is wider than the box
  and \<open>max_lines\<close> is at least 1, the lines begin with an empty line. When
  \<open>max_lines\<close> is 1 that empty line is the whole result and the word is not emitted.
  When \<open>max_lines\<close> is at least 2, the second line begins with the word, and it is the
  word alone, wider than the box, when the text has no second word or the second word
  does not fit beside it.
\<close>

theorem fallback_wide_first_word:
  assumes "split text = w1 # ws"
    and "tlen fnt w1 > of_int bw"
    and "1 \<le> max_lines_at bh 12"
  shows "\<exists>rest. fallback_wrap tlen fnt text bw bh = [] # rest
           \<and> (max_lines_at bh 12 = 1 \<longrightarrow> rest = [])
           \<and> (2 \<le> max_lines_at bh 12 \<longrightarrow>
                (\<exists>l2 more. rest = l2 # more \<and> prefix w1 l2
                   \<and> (ws = [] \<or> tlen fnt (w1 @ '' '' @ hd ws) > of_int bw \<longrightarrow> l2 = w1)))"
proof -
  let ?ml = "max_lines_at bh 12"
  let ?m = "tlen fnt"
  obtain wrapped cur where run: "fallback_loop ?m bw ?ml [[]] w1 ws = (wrapped, cur)"
    by (cases "fallback_loop ?m bw ?ml [[]] w1 ws")
  have first: "fallback_loop ?m bw ?ml [] [] (split text) = (wrapped, cur)"
    using assms run by simp
  have w1: "w1 \<noteq> []" using split_nonempty [of w1 "text"] assms(1) by simp
  have lines: "fallback_wrap tlen fnt text bw bh =
      (if cur \<noteq> [] \<and> int (length wrapped) < ?ml then wrapped @ [cur] else wrapped)"
    using assms(1,3) first by (simp add: fallback_wrap_def Let_def line_height_approx_def)
  from fallback_loop_prefix [OF run] obtain tail where wrapped: "wrapped = [] # tail"
    by (auto simp: prefix_def)
  show ?thesis
  proof (cases "?ml = 1")
    case True
    then have "fst (fallback_loop ?m bw ?ml [[]] w1 ws) = [[]]"
      by (intro fallback_loop_full) simp
    with run have "wrapped = [[]]" by simp
    with lines True show ?thesis by simp
  next
    case False
    with assms(3) have two: "2 \<le> ?ml" by simp
    have exact: "ws = [] \<or> ?m (w1 @ '' '' @ hd ws) > of_int bw
        \<Longrightarrow> (wrapped = [[]] \<and> cur = w1) \<or> (\<exists>more. wrapped = [] # w1 # more)"
    proof (cases ws)
      case Nil
      with run show ?thesis by simp
    next
      case (Cons w2 ws')
      assume "ws = [] \<or> ?m (w1 @ '' '' @ hd ws) > of_int bw"
      with Cons w1 have nofit: "\<not> ?m (test_line w1 w2) \<le> of_int bw"
        by (simp add: test_line_def)
      with run Cons two have "fallback_loop ?m bw ?ml ([[]] @ [w1]) w2 ws' = (wrapped, cur)"
        by simp
      from fallback_loop_prefix [OF this] show ?thesis by (auto simp: prefix_def)
    qed
    from fallback_second_line [OF two _ w1 run, of w1]
    have "(wrapped = [[]] \<and> prefix w1 cur \<and> cur \<noteq> [])
       \<or> (\<exists>l2 more. wrapped = [] # l2 # more \<and> prefix w1 l2)" by simp
    then show ?thesis
    proof
      assume a: "wrapped = [[]] \<and> prefix w1 cur \<and> cur \<noteq> []"
      with lines two have "fallback_wrap tlen fnt text bw bh = [[], cur]" by simp
      moreover have "ws = [] \<or> ?m (w1 @ '' '' @ hd ws) > of_int bw \<longrightarrow> cur = w1"
        using exact a by auto
      ultimately show ?thesis using a False by simp
    next
      assume "\<exists>l2 more. wrapped = [] # l2 # more \<and> prefix w1 l2"
      then obtain l2 more where b: "wrapped = [] # l2 # more" "prefix w1 l2" by blast
      have "ws = [] \<or> ?m (w1 @ '' '' @ hd ws) > of_int bw \<longrightarrow> l2 = w1"
        using exact b(1) by auto
      with b lines False show ?thesis by auto
    qed
  qed
qed

lemma fallback_one_line: "fallback_wrap fixed_pitch (TrueType 12) ''abcdefgh'' 10 20 = [[]]"
  by code_simp

lemma split_abcdefgh: "split ''abcdefgh'' = [''abcdefgh'']"
  by code_simp

theorem fallback_wide_first_word_witness:
  "split ''abcdefgh'' = [''abcdefgh'']
   \<and> fixed_pitch (TrueType 12) ''abcdefgh'' > of_int 10
   \<and> 2 \<le> max_lines_at 50 12
   \<and> fallback_wrap fixed_pitch (TrueType 12) ''abcdefgh'' 10 50 = [[], ''abcdefgh'']"
proof -
  have a: "fixed_pitch (TrueType 12) ''abcdefgh'' > of_int 10" by simp
  have b: "1 \<le> max_lines_at 50 12" "2 \<le> max_lines_at 50 12" "max_lines_at 50 12 \<noteq> 1" by code_simp+
  from fallback_wide_first_word [where tlen = fixed_pitch and fnt = "TrueType 12" and bw = 10
      and bh = 50, OF split_abcdefgh a b(1)] b(2) b(3) split_abcdefgh a
  show ?thesis by (auto simp: long_word_fallback)
qed

text \<open>
  Claim C9 as stated fails: in a box of 10 by 20 the fallback pass has room for one line,
  the word \<open>''abcdefgh''\<close> is 48 wide at size 12, and the result is the single empty
  line: no returned line is wider than the box.
\<close>

theorem fallback_drops_wide_word_counterexample:
  "hd (split ''abcdefgh'') = ''abcdefgh''
   \<and> fixed_pitch (TrueType 12) ''abcdefgh'' > of_int 10
   \<and> 1 \<le> max_lines_at 20 12
   \<and> fallback_wrap fixed_pitch (TrueType 12) ''abcdefgh'' 10 20 = [[]]
   \<and> fst (wrap_text_and_find_font FontPresent fixed_pitch ''abcdefgh'' 10 20) = (TrueType 12, [[]])
   \<and> \<not> (\<exists>l\<in>set (fallback_wrap fixed_pitch (TrueType 12) ''abcdefgh'' 10 20).
            fixed_pitch (TrueType 12) l > of_int 10)"
  by code_simp

section \<open>A block with empty text\<close>

lemma example_box: "block_box 300 200 example_bbox = Inr (Box 10 10 210 60)"
  by code_simp

lemma split_space: "split '' '' = []"
  by code_simp

lemma strip_nonempty_text: "strip src = [] \<or> translator (strip src) = Translated []
    \<Longrightarrow> fst (translate_block translator src) = '' ''"
  by (auto simp: translate_block_def Let_def)

lemma find_font_blank:
  "split text = [] \<Longrightarrow> wrap_text_and_find_font ff tlen text bw bh =
     ((fst (load_font ff 40), []), snd (load_font ff 40))"
  by (simp add: wrap_text_and_find_font_def candidate_sizes_eq wrap_at_def split_beta)

text \<open>
  Claim C5, as amended. The claim says that an empty replacement text is drawn as one
  blank line. The script turns the empty text into a single space, the size search
  returns the font for size 40 with no lines for it, and the overlay loop, for a valid
  box, erases the box, draws no text and shows the warning that the text could not be
  fitted. No exception is raised.
\<close>

theorem empty_text_block:
  assumes "strip src = [] \<or> translator (strip src) = Translated []"
    and "block_box img_width img_height bb = Inr (Box x1 y1 x2 y2)"
  shows "fst (translate_block translator src) = '' ''
       \<and> overlay_block ff lib img_width img_height (bb, fst (translate_block translator src)) (ops, shown)
           = Inr (ops @ [Rectangle x1 y1 x2 y2], shown @ snd (load_font ff 40) @ [CouldNotFit '' ''])"
proof -
  have t: "fst (translate_block translator src) = '' ''"
    using assms(1) by (rule strip_nonempty_text)
  have "overlay_block ff lib img_width img_height (bb, '' '') (ops, shown)
           = Inr (ops @ [Rectangle x1 y1 x2 y2], shown @ snd (load_font ff 40) @ [CouldNotFit '' ''])"
    using assms(2) by (simp add: overlay_block_def Let_def find_font_blank [OF split_space])
  with t show ?thesis by simp
qed

theorem empty_text_block_witness:
  "strip ''Hola'' \<noteq> [] \<and> block_box 300 200 example_bbox = Inr (Box 10 10 210 60)
   \<and> overlay_block FontMissing example_pil 300 200
        (example_bbox, fst (translate_block (\<lambda>t. Translated []) ''Hola'')) ([], [])
       = Inr ([Rectangle 10 10 210 60], [FontNotFound, CouldNotFit '' ''])"
proof -
  have a: "strip ''Hola'' \<noteq> []" by code_simp
  have b: "strip ''Hola'' = [] \<or> (\<lambda>t. Translated []) (strip ''Hola'') = Translated []" by simp
  note block = empty_text_block [OF b example_box, of FontMissing example_pil "[]" "[]"]
  from block [THEN conjunct2] a example_box
  show ?thesis by (simp add: load_font_def)
qed

text \<open>
  Claim C5 as stated fails: for a translation that is the empty string, the only canvas
  call for the block is the rectangle that erases the box; no line is drawn.
\<close>

theorem empty_text_not_drawn_counterexample:
  "fst (translate_block (\<lambda>t. Translated []) ''Hola'') = '' ''
   \<and> overlay_block FontPresent example_pil 300 200
        (example_bbox, fst (translate_block (\<lambda>t. Translated []) ''Hola'')) ([], [])
       = Inr ([Rectangle 10 10 210 60], [CouldNotFit '' ''])"
  by code_simp

section \<open>Rounding to double precision is monotone and exact on small half-integers\<close>

lemma rne_of_int: "rne (of_int k) = k"
  by (simp add: rne_def)

lemma rne_bounds: "\<lfloor>x\<rfloor> \<le> rne x" "rne x \<le> \<lfloor>x\<rfloor> + 1"
  by (simp_all add: rne_def Let_def)

lemma rne_mono:
  assumes "x \<le> y"
  shows "rne x \<le> rne y"
proof (cases "\<lfloor>x\<rfloor> < \<lfloor>y\<rfloor>")
  case True
  have "rne x \<le> \<lfloor>x\<rfloor> + 1" by (rule rne_bounds)
  also have "\<dots> \<le> \<lfloor>y\<rfloor>" using True by simp
  also have "\<dots> \<le> rne y" by (rule rne_bounds)
  finally show ?thesis .
next
  case False
  with floor_mono [OF assms] have eq: "\<lfloor>x\<rfloor> = \<lfloor>y\<rfloor>" by simp
  have "x - of_int \<lfloor>y\<rfloor> \<le> y - of_int \<lfloor>y\<rfloor>" using assms by simp
  then show ?thesis unfolding rne_def Let_def eq by auto
qed

lemma exponent_bounds:
  assumes "0 < x"
  shows "2 powi (exponent x) \<le> x" and "x < 2 powi (exponent x + 1)"
proof -
  have "2 powi (exponent x) \<le> x \<and> x < 2 powi (exponent x + 1)"
  proof (cases "1 \<le> x")
    case True
    let ?f = "\<lfloor>x\<rfloor>"
    have f: "0 < ?f" using True by simp
    from bitlen_bounds [OF f] have lo: "2 ^ nat (bitlen ?f - 1) \<le> ?f" and hi: "?f < 2 ^ nat (bitlen ?f)"
      by simp_all
    have b: "1 \<le> bitlen ?f" using f bitlen_eq_zero_iff [of ?f] bitlen_nonneg [of ?f] by linarith
    have e: "exponent x = bitlen ?f - 1" using True by (simp add: exponent_def)
    have "(2::rat) powi (bitlen ?f - 1) = of_int (2 ^ nat (bitlen ?f - 1))"
      using b by (simp add: power_int_nonneg_exp)
    also have "\<dots> \<le> of_int ?f" using lo by (simp only: of_int_le_iff)
    also have "\<dots> \<le> x" by simp
    finally have 1: "2 powi (exponent x) \<le> x" unfolding e .
    have "?f + 1 \<le> 2 ^ nat (bitlen ?f)" using hi by simp
    then have "(of_int (?f + 1) :: rat) \<le> of_int (2 ^ nat (bitlen ?f))" by (simp only: of_int_le_iff)
    moreover have "x < of_int (?f + 1)" by linarith
    ultimately have "x < of_int (2 ^ nat (bitlen ?f))" by linarith
    also have "\<dots> = (2::rat) powi (bitlen ?f)" using b by (simp add: power_int_nonneg_exp)
    finally have 2: "x < 2 powi (exponent x + 1)" unfolding e by simp
    from 1 2 show ?thesis ..
  next
    case False
    then have x1: "x < 1" by simp
    let ?y = "1 / x"
    let ?c = "\<lceil>?y\<rceil>"
    have y: "1 < ?y" using assms x1 by simp
    then have c: "2 \<le> ?c" by linarith
    then have c1: "0 < ?c - 1" by simp
    let ?j = "bitlen (?c - 1)"
    from bitlen_bounds [OF c1] have lo: "2 ^ nat (?j - 1) \<le> ?c - 1" and hi: "?c - 1 < 2 ^ nat ?j"
      by simp_all
    have j: "1 \<le> ?j" using c1 bitlen_eq_zero_iff [of "?c - 1"] bitlen_nonneg [of "?c - 1"] by linarith
    have e: "exponent x = - ?j" using False by (simp add: exponent_def)
    have "?c \<le> 2 ^ nat ?j" using hi by simp
    then have le: "(of_int ?c :: rat) \<le> of_int (2 ^ nat ?j)" by (simp only: of_int_le_iff)
    have "?y \<le> of_int ?c" by (rule le_of_int_ceiling)
    also note le
    also have "(of_int (2 ^ nat ?j) :: rat) = 2 ^ nat ?j" by simp
    finally have "?y \<le> 2 ^ nat ?j" .
    then have "1 \<le> x * 2 ^ nat ?j" using assms by (simp add: field_simps)
    then have "1 / 2 ^ nat ?j \<le> x" by (simp add: field_simps)
    moreover have "(2::rat) powi (- ?j) = 1 / 2 ^ nat ?j"
      using j by (simp add: power_int_def field_simps)
    ultimately have 1: "2 powi (exponent x) \<le> x" unfolding e by simp
    have le2: "(of_int (2 ^ nat (?j - 1)) :: rat) \<le> of_int (?c - 1)"
      using lo by (simp only: of_int_le_iff)
    have "(2 ^ nat (?j - 1) :: rat) = of_int (2 ^ nat (?j - 1))" by simp
    also note le2
    also have "(of_int (?c - 1) :: rat) < ?y" by linarith
    finally have "2 ^ nat (?j - 1) < ?y" .
    then have "x * 2 ^ nat (?j - 1) < 1" using assms by (simp add: field_simps)
    then have "x < 1 / 2 ^ nat (?j - 1)" by (simp add: field_simps)
    moreover have "(2::rat) powi (- ?j + 1) = 1 / 2 ^ nat (?j - 1)"
    proof (cases "?j = 1")
      case True
      then show ?thesis by simp
    next
      case False
      with j have "- ?j + 1 < 0" by simp
      then show ?thesis by (simp add: power_int_def field_simps)
    qed
    ultimately have 2: "x < 2 powi (exponent x + 1)" unfolding e by simp
    from 1 2 show ?thesis ..
  qed
  then show "2 powi (exponent x) \<le> x" and "x < 2 powi (exponent x + 1)" by simp_all
qed

lemma exponent_mono:
  assumes "0 < x" and "x \<le> y"
  shows "exponent x \<le> exponent y"
proof (rule ccontr)
  assume "\<not> exponent x \<le> exponent y"
  then have "exponent y + 1 \<le> exponent x" by simp
  then have "(2::rat) powi (exponent y + 1) \<le> 2 powi (exponent x)"
    by (rule power_int_increasing) simp
  also have "\<dots> \<le> x" using assms(1) by (rule exponent_bounds)
  also have "\<dots> \<le> y" by (rule assms(2))
  also have "\<dots> < 2 powi (exponent y + 1)" using assms by (intro exponent_bounds) simp
  finally show False by simp
qed

lemma ulp_pos: "(0::rat) < 2 powi k"
  by (simp add: power_int_def)

lemma mantissa_bounds:
  assumes "0 < a"
  shows "2 ^ 52 \<le> a / 2 powi (exponent a - 52)" and "a / 2 powi (exponent a - 52) < 2 ^ 53"
proof -
  let ?u = "(2::rat) powi (exponent a - 52)"
  have u: "0 < ?u" by (rule ulp_pos)
  have lo: "2 ^ 52 * ?u = 2 powi (exponent a)"
    using power_int_add [of "2::rat" 52 "exponent a - 52"] by simp
  have hi: "2 ^ 53 * ?u = 2 powi (exponent a + 1)"
    using power_int_add [of "2::rat" 53 "exponent a - 52"] by (simp add: add.commute)
  from exponent_bounds(1) [OF assms] lo have "2 ^ 52 * ?u \<le> a" by simp
  then show "2 ^ 52 \<le> a / ?u" using u by (simp add: pos_le_divide_eq)
  from exponent_bounds(2) [OF assms] hi have "a < 2 ^ 53 * ?u" by simp
  then show "a / ?u < 2 ^ 53" using u by (simp add: pos_divide_less_eq)
qed

lemma round_pos_bounds:
  assumes "0 < a"
  shows "2 powi (exponent a) \<le> round_pos a" and "round_pos a \<le> 2 powi (exponent a + 1)"
proof -
  let ?u = "(2::rat) powi (exponent a - 52)"
  let ?m = "a / ?u"
  have u: "0 < ?u" by (rule ulp_pos)
  have lo: "2 ^ 52 * ?u = 2 powi (exponent a)"
    using power_int_add [of "2::rat" 52 "exponent a - 52"] by simp
  have hi: "2 ^ 53 * ?u = 2 powi (exponent a + 1)"
    using power_int_add [of "2::rat" 53 "exponent a - 52"] by (simp add: add.commute)
  have "rne (of_int (2 ^ 52)) \<le> rne ?m"
    using mantissa_bounds(1) [OF assms] by (intro rne_mono) simp
  then have "(2 ^ 52 :: int) \<le> rne ?m" by (simp only: rne_of_int)
  then have "(of_int (2 ^ 52) :: rat) \<le> of_int (rne ?m)" by (simp only: of_int_le_iff)
  then have "2 ^ 52 * ?u \<le> of_int (rne ?m) * ?u" using u by simp
  then show "2 powi (exponent a) \<le> round_pos a" unfolding lo round_pos_def Let_def .
  have "rne ?m \<le> rne (of_int (2 ^ 53))"
    using mantissa_bounds(2) [OF assms] by (intro rne_mono) simp
  then have "rne ?m \<le> (2 ^ 53 :: int)" by (simp only: rne_of_int)
  then have "(of_int (rne ?m) :: rat) \<le> of_int (2 ^ 53)" by (simp only: of_int_le_iff)
  then have "of_int (rne ?m) * ?u \<le> 2 ^ 53 * ?u" using u by simp
  then show "round_pos a \<le> 2 powi (exponent a + 1)" unfolding hi round_pos_def Let_def .
qed

lemma round_pos_mono:
  assumes "0 < a" and "a \<le> b"
  shows "round_pos a \<le> round_pos b"
proof (cases "exponent a = exponent b")
  case True
  let ?u = "(2::rat) powi (exponent b - 52)"
  have u: "0 < ?u" by (rule ulp_pos)
  have "a / ?u \<le> b / ?u" using assms(2) u by (simp add: divide_right_mono)
  then have "rne (a / ?u) \<le> rne (b / ?u)" by (rule rne_mono)
  then have "(of_int (rne (a / ?u)) :: rat) \<le> of_int (rne (b / ?u))" by (simp only: of_int_le_iff)
  then have "of_int (rne (a / ?u)) * ?u \<le> of_int (rne (b / ?u)) * ?u" using u by simp
  then show ?thesis unfolding round_pos_def Let_def True .
next
  case False
  with exponent_mono [OF assms] have lt: "exponent a + 1 \<le> exponent b" by simp
  have b: "0 < b" using assms by simp
  have "round_pos a \<le> 2 powi (exponent a + 1)" using assms(1) by (rule round_pos_bounds)
  also have "\<dots> \<le> 2 powi (exponent b)" using lt by (rule power_int_increasing) simp
  also have "\<dots> \<le> round_pos b" using b by (rule round_pos_bounds)
  finally show ?thesis .
qed

lemma round_pos_pos: "0 < a \<Longrightarrow> 0 < round_pos a"
  by (rule less_le_trans [OF ulp_pos round_pos_bounds(1)])

lemma round_double_mono:
  assumes "x \<le> y"
  shows "round_double x \<le> round_double y"
proof -
  consider "0 < x" | "x \<le> 0" "0 \<le> y" | "y < 0" by linarith
  then show ?thesis
  proof cases
    case 1
    with assms have "0 < y" by simp
    with 1 round_pos_mono [of x y] assms show ?thesis by (simp add: round_double_def)
  next
    case 2
    have "round_double x \<le> 0"
      using round_pos_pos [of "\<bar>x\<bar>"] 2(1) by (cases "x = 0") (simp_all add: round_double_def)
    moreover have "0 \<le> round_double y"
      using round_pos_pos [of "\<bar>y\<bar>"] 2(2) by (cases "y = 0") (simp_all add: round_double_def)
    ultimately show ?thesis by simp
  next
    case 3
    with assms have "x < 0" by simp
    with 3 round_pos_mono [of "- y" "- x"] assms show ?thesis by (simp add: round_double_def)
  qed
qed

lemma round_double_half_int:
  assumes "0 \<le> i" and "i < 2 ^ 53"
  shows "round_double (of_int i / 2) = of_int i / 2"
proof (cases "i = 0")
  case True
  then show ?thesis by (simp add: round_double_def)
next
  case False
  let ?a = "of_int i / 2 :: rat"
  have a: "0 < ?a" using assms(1) False by simp
  let ?e = "exponent ?a"
  have "(of_int i :: rat) < of_int (2 ^ 53)" using assms(2) by (simp only: of_int_less_iff)
  then have "?a < 2 ^ 52" by simp
  with exponent_bounds(1) [OF a] have "(2::rat) powi ?e < 2 powi 52" by simp
  then have e: "?e < 52" by (rule power_int_le_imp_less_exp [rotated]) simp_all
  let ?u = "(2::rat) powi (?e - 52)"
  have u: "0 < ?u" by (rule ulp_pos)
  have "?u * 2 powi (51 - ?e) = 2 powi (- 1)"
    using power_int_add [of "2::rat" "?e - 52" "51 - ?e"] by simp
  then have inv: "?u * 2 powi (51 - ?e) = 1 / 2" by (simp add: power_int_def)
  have k: "(2::rat) powi (51 - ?e) = of_int (2 ^ nat (51 - ?e))"
    using e by (simp add: power_int_nonneg_exp)
  have "?a = of_int i * (?u * 2 powi (51 - ?e))" unfolding inv by simp
  then have "?a / ?u = of_int i * 2 powi (51 - ?e)" using u by (simp add: field_simps)
  then have m: "?a / ?u = of_int (i * 2 ^ nat (51 - ?e))" unfolding k by simp
  have "round_pos ?a = of_int (rne (?a / ?u)) * ?u" by (simp add: round_pos_def Let_def)
  also have "\<dots> = of_int (i * 2 ^ nat (51 - ?e)) * ?u" unfolding m by (simp only: rne_of_int)
  also have "\<dots> = ?a / ?u * ?u" unfolding m ..
  also have "\<dots> = ?a" using u by simp
  finally have "round_pos ?a = ?a" .
  with a show ?thesis by (simp add: round_double_def)
qed

lemma round_double_int: "0 \<le> k \<Longrightarrow> k < 2 ^ 52 \<Longrightarrow> round_double (of_int k) = of_int k"
  using round_double_half_int [of "2 * k"] by simp

section \<open>The layout of a block\<close>

lemma block_box_bounds:
  assumes "block_box img_width img_height bb = Inr (Box x1 y1 x2 y2)"
  shows "0 \<le> x1" "0 \<le> y1" "x2 \<le> img_width" "y2 \<le> img_height" "x1 < x2" "y1 < y2"
  using assms
  by (auto simp: block_box_def Let_def split: option.splits sum.splits if_splits)

lemma fadd_mono: "a + b \<le> c \<Longrightarrow> fadd a b \<le> round_double c"
  unfolding fadd_def by (rule round_double_mono)

lemma fadd_mono': "c \<le> a + b \<Longrightarrow> round_double c \<le> fadd a b"
  unfolding fadd_def by (rule round_double_mono)

lemma plan_lines_empty:
  assumes "6 \<le> lh" and "0 \<le> y2" and "y2 < 2 ^ 31"
    and "of_int y2 < cy"
  shows "plan_lines tlen fnt x1 y2 bw lh cy lines = []"
  using assms(4)
proof (induction lines arbitrary: cy)
  case Nil
  show ?case by simp
next
  case (Cons line lines)
  have "of_int (y2 + 6) \<le> cy + lh" using Cons.prems assms(1) by simp
  then have "round_double (of_int (y2 + 6)) \<le> fadd cy lh" by (rule fadd_mono')
  moreover have "round_double (of_int (y2 + 6)) = of_int (y2 + 6)"
    using assms(2,3) by (intro round_double_int) simp_all
  ultimately have far: "of_int (y2 + 6) \<le> fadd cy lh" by simp
  then have "(of_int (y2 + 5) :: rat) < fadd cy lh" by simp
  moreover have "of_int y2 < fadd cy lh" using far by simp
  ultimately show ?case using Cons.IH by simp
qed

lemma draw_lines_plan_big:
  assumes "6 \<le> lh" and "0 \<le> y2" and "y2 < 2 ^ 31"
  shows "draw_lines tlen fnt x1 y2 bw lh cy lines = plan_lines tlen fnt x1 y2 bw lh cy lines"
proof (induction lines arbitrary: cy)
  case Nil
  show ?case by simp
next
  case (Cons line lines)
  show ?case
  proof (cases "fadd cy lh > of_int y2")
    case True
    from plan_lines_empty [OF assms True]
    have "plan_lines tlen fnt x1 y2 bw lh (fadd cy lh) lines = []" .
    with True show ?thesis by (simp add: Let_def not_less)
  next
    case False
    with Cons.IH show ?thesis by (simp add: Let_def not_less)
  qed
qed

lemma draw_lines_plan_small:
  assumes "lh \<le> 6" and "y2 < 2 ^ 31"
    and "0 \<le> i"
    and "of_int i / 2 + 6 * of_nat (length lines) \<le> (of_int y2 :: rat)"
    and "cy \<le> of_int i / 2"
  shows "draw_lines tlen fnt x1 y2 bw lh cy lines = plan_lines tlen fnt x1 y2 bw lh cy lines"
  using assms(3-)
proof (induction lines arbitrary: cy i)
  case Nil
  show ?case by simp
next
  case (Cons line lines)
  have room: "of_int (i + 12) / 2 + 6 * of_nat (length lines) \<le> (of_int y2 :: rat)"
    using Cons.prems(2) by (simp add: field_simps)
  then have top: "of_int (i + 12) / 2 \<le> (of_int y2 :: rat)"
    by (rule order_trans [rotated]) simp
  have "of_int (i + 12) \<le> (2 * of_int y2 :: rat)" using top by simp
  then have "(of_int (i + 12) :: rat) \<le> of_int (2 * y2)" by simp
  then have "i + 12 \<le> 2 * y2" by (simp only: of_int_le_iff)
  with assms(2) have small: "i + 12 < 2 ^ 53" by simp
  have "cy + lh \<le> of_int (i + 12) / 2" using Cons.prems(3) assms(1) by simp
  then have "fadd cy lh \<le> round_double (of_int (i + 12) / 2)" by (rule fadd_mono)
  also have "\<dots> = of_int (i + 12) / 2"
    using Cons.prems(1) small by (intro round_double_half_int) simp_all
  finally have next_y: "fadd cy lh \<le> of_int (i + 12) / 2" .
  with top have "\<not> fadd cy lh > of_int y2" by simp
  moreover have "draw_lines tlen fnt x1 y2 bw lh (fadd cy lh) lines
      = plan_lines tlen fnt x1 y2 bw lh (fadd cy lh) lines"
    using Cons.prems(1) room next_y by (intro Cons.IH [of "i + 12"]) simp_all
  ultimately show ?case by (simp add: Let_def not_less)
qed


lemma round_double_zero: "round_double 0 = 0"
  by (simp add: round_double_def)

lemma round_double_nonneg: "0 \<le> x \<Longrightarrow> 0 \<le> round_double x"
  using round_double_mono [of 0 x] by (simp add: round_double_zero)

lemma one_point_two_nonneg: "0 \<le> one_point_two"
  unfolding one_point_two_def by (rule round_double_nonneg) simp

lemma size_line_height_nonneg: "size_line_height lib fnt = Inr lh \<Longrightarrow> 0 \<le> lh"
  by (auto simp: size_line_height_def fmul_def split: option.splits
      intro!: round_double_nonneg mult_nonneg_nonneg one_point_two_nonneg)

lemma line_height_nonneg: "line_height lib fnt = Inr lh \<Longrightarrow> 0 \<le> lh"
  by (auto simp: line_height_def Let_def split: option.splits if_splits
      dest: size_line_height_nonneg)

lemma lines_times_line_height:
  assumes "int n \<le> max_lines_at bh sz" and "0 < n" and "12 \<le> sz"
  shows "of_nat n * (72 / 5) \<le> (of_int bh :: rat)"
proof -
  have pos: "(0::rat) < line_height_approx sz" using assms(3) by (simp add: line_height_approx_def)
  from max_lines_at_floor [OF assms(1)] assms(2)
  have "int n \<le> \<lfloor>of_int bh / line_height_approx sz\<rfloor>" by simp
  then have "of_int (int n) \<le> (of_int \<lfloor>of_int bh / line_height_approx sz\<rfloor> :: rat)"
    by (simp only: of_int_le_iff)
  also have "\<dots> \<le> of_int bh / line_height_approx sz" by (rule of_int_floor_le)
  finally have "of_nat n * line_height_approx sz \<le> (of_int bh :: rat)"
    using pos by (simp add: pos_le_divide_eq)
  moreover have "(72 / 5 :: rat) \<le> line_height_approx sz"
    using assms(3) by (simp add: line_height_approx_def)
  then have "of_nat n * (72 / 5) \<le> of_nat n * line_height_approx sz"
    by (intro mult_left_mono) simp_all
  ultimately show ?thesis by linarith
qed

lemma found_lines_fit_height:
  assumes "fst (wrap_text_and_find_font ff tlen text bw bh) = (fnt, lines)" and "lines \<noteq> []"
  shows "of_nat (length lines) * (72 / 5) \<le> (of_int bh :: rat)"
proof -
  from size_search_cases [of candidate_sizes tlen ff "text" bw bh "[]"] show ?thesis
  proof
    assume "\<exists>pre s post ls. candidate_sizes = pre @ s # post
      \<and> (\<forall>t\<in>set pre. wrap_at tlen (fst (load_font ff t)) text bw bh t = None)
      \<and> wrap_at tlen (fst (load_font ff s)) text bw bh s = Some ls
      \<and> size_search ff tlen text bw bh candidate_sizes [] =
          ((fst (load_font ff s), ls), [] @ concat (map (\<lambda>t. snd (load_font ff t)) (pre @ [s])))"
    then obtain pre s post ls where h: "candidate_sizes = pre @ s # post"
        "wrap_at tlen (fst (load_font ff s)) text bw bh s = Some ls"
        "size_search ff tlen text bw bh candidate_sizes [] =
          ((fst (load_font ff s), ls), [] @ concat (map (\<lambda>t. snd (load_font ff t)) (pre @ [s])))"
      by blast
    have "s \<in> set (pre @ s # post)" by simp
    then have "s \<in> set candidate_sizes" unfolding h(1) [symmetric] .
    then have s: "12 \<le> s" by (rule candidate_sizes_ge)
    from h(3) assms(1) have "ls = lines" by (simp add: wrap_text_and_find_font_def)
    with wrap_at_SomeD [OF h(2)] assms(2)
    have "int (length lines) \<le> max_lines_at bh s" by auto
    then show ?thesis using assms(2) s by (intro lines_times_line_height) simp_all
  next
    assume "(\<forall>t\<in>set candidate_sizes. wrap_at tlen (fst (load_font ff t)) text bw bh t = None)
      \<and> size_search ff tlen text bw bh candidate_sizes [] =
          ((fst (load_font ff 12), fallback_wrap tlen (fst (load_font ff 12)) text bw bh),
           [] @ concat (map (\<lambda>t. snd (load_font ff t)) (candidate_sizes @ [12])))"
    with assms(1) have "lines = fallback_wrap tlen (fst (load_font ff 12)) text bw bh"
      by (auto simp: wrap_text_and_find_font_def)
    with fallback_wrap_length [of tlen "fst (load_font ff 12)" "text" bw bh]
    have "int (length lines) \<le> max 0 (max_lines_at bh 12)" by simp
    moreover have "0 < int (length lines)" using assms(2) by simp
    ultimately have ml: "int (length lines) \<le> max_lines_at bh 12" by linarith
    have "0 < length lines" using assms(2) by simp
    from lines_times_line_height [OF ml this] show ?thesis by simp
  qed
qed

lemma start_y_bound:
  assumes "0 \<le> y1" and "y1 \<le> y2" and "y2 < 2 ^ 31" and "0 \<le> lh"
  shows "max (of_int y1) (fadd (of_int y1) (fdiv (fsub (of_int (y2 - y1)) (fmul (of_nat n) lh)) 2))
           \<le> of_int (y1 + y2) / 2"
proof -
  let ?bh = "y2 - y1"
  have bh: "0 \<le> ?bh" "?bh < 2 ^ 52" using assms(1-3) by simp_all
  have "0 \<le> fmul (of_nat n) lh"
    unfolding fmul_def using assms(4) by (intro round_double_nonneg mult_nonneg_nonneg) simp_all
  then have "of_int ?bh - fmul (of_nat n) lh \<le> of_int ?bh" by simp
  then have "fsub (of_int ?bh) (fmul (of_nat n) lh) \<le> round_double (of_int ?bh)"
    unfolding fsub_def by (rule round_double_mono)
  also have "\<dots> = of_int ?bh" using bh by (rule round_double_int)
  finally have "fsub (of_int ?bh) (fmul (of_nat n) lh) / 2 \<le> of_int ?bh / 2" by simp
  then have "fdiv (fsub (of_int ?bh) (fmul (of_nat n) lh)) 2 \<le> round_double (of_int ?bh / 2)"
    unfolding fdiv_def by (rule round_double_mono)
  also have "\<dots> = of_int ?bh / 2" using bh by (intro round_double_half_int) simp_all
  finally have "of_int y1 + fdiv (fsub (of_int ?bh) (fmul (of_nat n) lh)) 2
      \<le> of_int (y1 + y2) / 2" by (simp add: field_simps)
  then have "fadd (of_int y1) (fdiv (fsub (of_int ?bh) (fmul (of_nat n) lh)) 2)
      \<le> round_double (of_int (y1 + y2) / 2)" by (rule fadd_mono)
  also have "\<dots> = of_int (y1 + y2) / 2"
    using assms(1-3) by (intro round_double_half_int) simp_all
  finally have "fadd (of_int y1) (fdiv (fsub (of_int ?bh) (fmul (of_nat n) lh)) 2)
      \<le> of_int (y1 + y2) / 2" .
  moreover have "(of_int y1 :: rat) \<le> of_int (y1 + y2) / 2" using assms(2) by simp
  ultimately show ?thesis by simp
qed

text \<open>
  Claim C6. For a block with a valid box in an image less than \<open>2 ^ 31\<close> pixels high,
  the font and the non-empty lines that the size search chose, and the line height
  computed for that font, the overlay loop erases the box and then issues exactly the
  draw calls of \<open>layout_plan\<close>: the block starts at
  \<open>max(y1, y1 + (box_height - lines.count * line_height) / 2)\<close>, each line starts at
  \<open>max(x1, x1 + (box_width - measure(line)) / 2)\<close>, \<open>current_y\<close> advances by the line
  height after each line, and a line is left out exactly when
  \<open>current_y + line_height > y2 + 5\<close>, all in double precision as the script computes
  them. The \<^verbatim>\<open>break\<close> of the loop never removes a line that this test would keep:
  with a line height up to 6 the chosen lines, at most \<open>box_height / 14.4\<close> of them,
  never pass \<open>y2\<close>, and with a line height from 6 on every line after the
  \<^verbatim>\<open>break\<close> fails the test.
\<close>

theorem layout_of_block:
  assumes "block_box img_width img_height bb = Inr (Box x1 y1 x2 y2)"
    and "img_height < 2 ^ 31"
    and "fst (wrap_text_and_find_font ff (textlength lib) text (x2 - x1) (y2 - y1)) = (fnt, lines)"
    and "lines \<noteq> []"
    and "line_height lib fnt = Inr lh"
  shows "overlay_block ff lib img_width img_height (bb, text) (ops, shown) =
     Inr (ops @ [Rectangle x1 y1 x2 y2] @ layout_plan (textlength lib fnt) fnt x1 y1 x2 y2 lh lines,
          shown @ snd (wrap_text_and_find_font ff (textlength lib) text (x2 - x1) (y2 - y1)))"
proof -
  let ?n = "length lines"
  let ?cy = "max (of_int y1)
     (fadd (of_int y1) (fdiv (fsub (of_int (y2 - y1)) (fmul (of_nat ?n) lh)) 2))"
  from block_box_bounds [OF assms(1)] assms(2)
  have y: "0 \<le> y1" "y1 \<le> y2" "0 \<le> y2" "y2 < 2 ^ 31" by simp_all
  have lh: "0 \<le> lh" using assms(5) by (rule line_height_nonneg)
  have fit: "of_nat ?n * (72 / 5) \<le> (of_int (y2 - y1) :: rat)"
    using assms(3,4) by (rule found_lines_fit_height)
  have "draw_lines (textlength lib fnt) fnt x1 y2 (x2 - x1) lh ?cy lines
      = plan_lines (textlength lib fnt) fnt x1 y2 (x2 - x1) lh ?cy lines"
  proof (cases "6 \<le> lh")
    case True
    then show ?thesis using y(3,4) by (rule draw_lines_plan_big)
  next
    case False
    then have small: "lh \<le> 6" by simp
    have start: "?cy \<le> of_int (y1 + y2) / 2" using y(1,2,4) lh by (rule start_y_bound)
    have "of_nat ?n * 12 \<le> of_nat ?n * (72 / 5 :: rat)" by (intro mult_left_mono) simp_all
    with fit have "of_nat ?n * 12 \<le> (of_int (y2 - y1) :: rat)" by linarith
    then have room: "of_int (y1 + y2) / 2 + 6 * of_nat ?n \<le> (of_int y2 :: rat)"
      by (simp add: field_simps)
    have i: "0 \<le> y1 + y2" using y by simp
    from draw_lines_plan_small [OF small y(4) i room start] show ?thesis .
  qed
  then have "draw_lines (textlength lib fnt) fnt x1 y2 (x2 - x1) lh ?cy lines
      = layout_plan (textlength lib fnt) fnt x1 y1 x2 y2 lh lines"
    by (simp add: layout_plan_def Let_def)
  with assms show ?thesis
    by (simp add: overlay_block_def Let_def)
qed

text \<open>
  An example where rounding decides: five lines of height 19.2 in a box from 13 to 104.
  In exact arithmetic the fifth line would end at 109, which is \<open>y2 + 5\<close>; the
  script's sums of doubles give a little more, and the fifth line is not drawn.
\<close>

lemma five_box: "block_box 300 200 five_line_bbox = Inr (Box 0 13 12 104)"
  by code_simp

lemma five_found:
  "wrap_text_and_find_font FontPresent (textlength tall_pil) ''aa bb cc dd ee'' 12 91
     = ((TrueType 12, [''aa'', ''bb'', ''cc'', ''dd'', ''ee'']), [])"
  by code_simp

lemma five_line_height:
  "line_height tall_pil (TrueType 12) = Inr (5404319552844595 / 281474976710656)"
  by code_simp

lemma five_plan:
  "layout_plan (textlength tall_pil (TrueType 12)) (TrueType 12) 0 13 12 104
       (5404319552844595 / 281474976710656) [''aa'', ''bb'', ''cc'', ''dd'', ''ee'']
     = [DrawText 0 13 ''aa'' (TrueType 12),
        DrawText 0 (2265873562520781 / 70368744177664) ''bb'' (TrueType 12),
        DrawText 0 (1808476725365965 / 35184372088832) ''cc'' (TrueType 12),
        DrawText 0 (4968033338943079 / 70368744177664) ''dd'' (TrueType 12)]"
  by code_simp

lemma fifth_line_rounding:
  "fadd (4968033338943079 / 70368744177664) (5404319552844595 / 281474976710656)
     = 1579778306788557 / 17592186044416
   \<and> fadd (1579778306788557 / 17592186044416) (5404319552844595 / 281474976710656)
     = 7670193115365377 / 70368744177664
   \<and> (109 :: rat) < 7670193115365377 / 70368744177664"
  by code_simp

theorem layout_of_block_witness:
  "block_box 300 200 five_line_bbox = Inr (Box 0 13 12 104)
   \<and> (200 :: int) < 2 ^ 31
   \<and> line_height tall_pil (TrueType 12) = Inr (5404319552844595 / 281474976710656)
   \<and> overlay_block FontPresent tall_pil 300 200 (five_line_bbox, ''aa bb cc dd ee'') ([], [])
     = Inr ([Rectangle 0 13 12 104,
             DrawText 0 13 ''aa'' (TrueType 12),
             DrawText 0 (2265873562520781 / 70368744177664) ''bb'' (TrueType 12),
             DrawText 0 (1808476725365965 / 35184372088832) ''cc'' (TrueType 12),
             DrawText 0 (4968033338943079 / 70368744177664) ''dd'' (TrueType 12)], [])"
proof -
  have h: "(200 :: int) < 2 ^ 31" by simp
  have found: "fst (wrap_text_and_find_font FontPresent (textlength tall_pil) ''aa bb cc dd ee''
      (12 - 0) (104 - 13)) = (TrueType 12, [''aa'', ''bb'', ''cc'', ''dd'', ''ee''])"
    by (simp add: five_found)
  from layout_of_block [OF five_box h found _ five_line_height, of "[]" "[]"]
  show ?thesis by (simp add: five_box five_line_height five_plan five_found)
qed

section \<open>Rendering twice\<close>

lemma fold_paint:
  "fold (paint lib) ops img =
     img\<lparr>pixel := (\<lambda>p. fold (\<lambda>op. pixel_after lib op p) ops (pixel img p))\<rparr>"
proof (induction ops arbitrary: img)
  case Nil
  show ?case by simp
next
  case (Cons op ops)
  from Cons.IH [of "paint lib op img"] show ?case by (simp add: paint_def)
qed

lemma fold_paint_size:
  "width (fold (paint lib) ops img) = width img" "height (fold (paint lib) ops img) = height img"
  by (simp_all add: fold_paint)

lemma sets_pixel_after:
  "sets_pixel lib p op \<Longrightarrow> pixel_after lib op p c = pixel_after lib op p c'"
  by (cases op) auto

lemma fold_erased:
  "erased lib ops p \<Longrightarrow>
     fold (\<lambda>op. pixel_after lib op p) ops c = fold (\<lambda>op. pixel_after lib op p) ops c'"
proof (induction ops arbitrary: c c')
  case Nil
  then show ?case by (simp add: erased_def)
next
  case (Cons op ops)
  show ?case
  proof (cases "sets_pixel lib p op")
    case True
    then show ?thesis using sets_pixel_after [OF True, of c c'] by simp
  next
    case False
    with Cons.prems have "erased lib ops p" by (simp add: erased_def)
    from Cons.IH [OF this] show ?thesis by simp
  qed
qed

lemma leaves_pixel_after:
  "\<not> sets_pixel lib p op \<Longrightarrow> leaves_pixel lib p op \<Longrightarrow> pixel_after lib op p c = c"
  by (cases op) auto

lemma fold_no_text:
  "\<not> erased lib ops p \<Longrightarrow> no_text lib ops p \<Longrightarrow> fold (\<lambda>op. pixel_after lib op p) ops c = c"
  by (induction ops arbitrary: c) (simp_all add: erased_def no_text_def leaves_pixel_after)

text \<open>
  Claim C7, as amended. The claim says that running the overlay loop on its own result
  gives the same pixels. The second run issues the same canvas calls as the first, since
  they depend on the image only through its width and height. Its result agrees with the
  first at every pixel that one of the rectangles erases, and at every pixel that no text
  call changes. Elsewhere it need not: text is blended with what is on the canvas, and
  the fallback pass lets a line run past the erased box. An exception ends the run
  without an image, so the statement is about runs that produce one.
\<close>

theorem render_twice:
  assumes "render ff lib blocks img = Inr img'"
  shows "\<exists>img''. render ff lib blocks img' = Inr img''
           \<and> canvas_calls ff lib blocks img' = canvas_calls ff lib blocks img
           \<and> (\<forall>p. erased lib (canvas_calls ff lib blocks img) p
                    \<or> no_text lib (canvas_calls ff lib blocks img) p
                  \<longrightarrow> pixel img'' p = pixel img' p)"
proof -
  from assms obtain st where
    loop: "overlay_loop ff lib (width img) (height img) blocks ([], []) = Inr st"
    and img': "img' = fold (paint lib) (fst st) img"
    by (auto simp: render_def split: sum.splits)
  have size: "width img' = width img" "height img' = height img"
    unfolding img' by (rule fold_paint_size)+
  have calls: "canvas_calls ff lib blocks img = fst st"
    using loop by (simp add: canvas_calls_def)
  have calls': "canvas_calls ff lib blocks img' = fst st"
    using loop size by (simp add: canvas_calls_def)
  have again: "render ff lib blocks img' = Inr (fold (paint lib) (fst st) img')"
    using loop size by (simp add: render_def)
  have "pixel (fold (paint lib) (fst st) img') p = pixel img' p"
    if "erased lib (fst st) p \<or> no_text lib (fst st) p" for p
  proof (cases "erased lib (fst st) p")
    case True
    from fold_erased [OF True] show ?thesis by (simp add: fold_paint img')
  next
    case False
    with that have "no_text lib (fst st) p" by simp
    from fold_no_text [OF False this] show ?thesis by (simp add: fold_paint img')
  qed
  with again calls calls' show ?thesis by simp
qed



lemma narrow_box: "block_box 300 200 narrow_bbox = Inr (Box 10 10 20 60)"
  by code_simp

lemma narrow_found:
  "wrap_text_and_find_font FontPresent (textlength example_pil) ''abcdefgh'' 10 50
     = ((TrueType 12, [[], ''abcdefgh'']), [])"
  by code_simp

lemma narrow_line_height:
  "line_height example_pil (TrueType 12) = Inr (6079859496950169 / 562949953421312)"
  by code_simp

lemma narrow_start:
  "max 10 (fadd 10 (fdiv (fsub 50 (fmul 2 (6079859496950169 / 562949953421312))) 2))
     = 1702923609099469 / 70368744177664"
  by code_simp

lemma narrow_draw:
  "draw_lines (textlength example_pil (TrueType 12)) (TrueType 12) 10 60 10
       (6079859496950169 / 562949953421312) (1702923609099469 / 70368744177664) [[], ''abcdefgh'']
     = [DrawText 15 (1702923609099469 / 70368744177664) [] (TrueType 12),
        DrawText 10 35 ''abcdefgh'' (TrueType 12)]"
  by code_simp

lemma narrow_loop:
  "overlay_loop FontPresent example_pil 300 200 [(narrow_bbox, ''abcdefgh'')] ([], [])
     = Inr ([Rectangle 10 10 20 60,
             DrawText 15 (1702923609099469 / 70368744177664) [] (TrueType 12),
             DrawText 10 35 ''abcdefgh'' (TrueType 12)], [])"
  by (simp add: overlay_block_def Let_def narrow_box narrow_found narrow_line_height
      narrow_start narrow_draw del: draw_lines.simps)

lemma narrow_floor: "\<lfloor>1702923609099469 / 70368744177664 :: rat\<rfloor> = 24"
  by code_simp

theorem render_twice_witness:
  "\<exists>img' img''.
      render FontPresent example_pil [(narrow_bbox, ''abcdefgh'')] example_image = Inr img'
    \<and> render FontPresent example_pil [(narrow_bbox, ''abcdefgh'')] img' = Inr img''
    \<and> erased example_pil
         (canvas_calls FontPresent example_pil [(narrow_bbox, ''abcdefgh'')] example_image) (15, 35)
    \<and> pixel img'' (15, 35) = pixel img' (15, 35)"
proof -
  let ?ops = "[Rectangle 10 10 20 60,
      DrawText 15 (1702923609099469 / 70368744177664) [] (TrueType 12),
      DrawText 10 35 ''abcdefgh'' (TrueType 12)]"
  let ?blocks = "[(narrow_bbox, ''abcdefgh'')]"
  have size: "width example_image = 300" "height example_image = 200"
    by (simp_all add: example_image_def)
  have r: "render FontPresent example_pil ?blocks example_image
      = Inr (fold (paint example_pil) ?ops example_image)"
    unfolding render_def size narrow_loop by simp
  have calls: "canvas_calls FontPresent example_pil ?blocks example_image = ?ops"
    unfolding canvas_calls_def size narrow_loop by simp
  have e: "erased example_pil (canvas_calls FontPresent example_pil ?blocks example_image) (15, 35)"
    unfolding calls by (simp add: erased_def example_pil_def)
  from render_twice [OF r] obtain img'' where
    "render FontPresent example_pil ?blocks (fold (paint example_pil) ?ops example_image) = Inr img''"
    and "\<forall>p. erased example_pil (canvas_calls FontPresent example_pil ?blocks example_image) p
           \<or> no_text example_pil (canvas_calls FontPresent example_pil ?blocks example_image) p
         \<longrightarrow> pixel img'' p = pixel (fold (paint example_pil) ?ops example_image) p"
    by blast
  with r e show ?thesis by blast
qed

text \<open>
  Claim C7 as stated fails: in a box from 10 to 20 the word \<open>''abcdefgh''\<close> is drawn
  from column 10 to column 57 with ink at half coverage. The pixel at column 30 lies
  outside the erased box; the first run takes it from 7 to 3 and the second from 3 to 1.
\<close>

theorem render_twice_counterexample:
  "\<exists>img' img''.
      render FontPresent example_pil [(narrow_bbox, ''abcdefgh'')] example_image = Inr img'
    \<and> render FontPresent example_pil [(narrow_bbox, ''abcdefgh'')] img' = Inr img''
    \<and> pixel img' (30, 35) = Colour 3
    \<and> pixel img'' (30, 35) = Colour 1
    \<and> img'' \<noteq> img'"
proof -
  let ?ops = "[Rectangle 10 10 20 60,
      DrawText 15 (1702923609099469 / 70368744177664) [] (TrueType 12),
      DrawText 10 35 ''abcdefgh'' (TrueType 12)]"
  let ?blocks = "[(narrow_bbox, ''abcdefgh'')]"
  let ?once = "fold (paint example_pil) ?ops example_image"
  let ?twice = "fold (paint example_pil) ?ops ?once"
  have size: "width example_image = 300" "height example_image = 200"
    by (simp_all add: example_image_def)
  have size': "width ?once = 300" "height ?once = 200"
    unfolding fold_paint_size size by simp_all
  have r1: "render FontPresent example_pil ?blocks example_image = Inr ?once"
    unfolding render_def size narrow_loop by simp
  have r2: "render FontPresent example_pil ?blocks ?once = Inr ?twice"
    unfolding render_def size' narrow_loop by simp
  have p1: "pixel ?once (30, 35) = Colour 3"
    by (simp add: paint_def example_pil_def example_image_def narrow_floor)
  have p2: "pixel ?twice (30, 35) = Colour 1"
    by (simp add: paint_def example_pil_def example_image_def narrow_floor)
  from p1 p2 have "?twice \<noteq> ?once" by auto
  with r1 r2 p1 p2 show ?thesis by blast
qed

end
